theory Spec2Isabelle
  imports Main
begin

section \<open>Data model of the node kit engine\<close>

text \<open>
  A shallow embedding of \<^verbatim>\<open>src/nodekits/SoBaseKit.cpp\<close>.  Nodes live in an explicit
  store; a node pointer is an address, \<open>None\<close> is the \<^verbatim>\<open>NULL\<close> pointer.  Every
  \<^verbatim>\<open>assert\<close> of the source is a branch returning \<open>Inl AssertFailed\<close>, every
  dereference of a null or dangling pointer returns \<open>Inl BadPointer\<close>.  Recursion through
  the instance graph is bounded by a fuel argument; \<open>Inl OutOfFuel\<close> is the value of a call
  that has not returned within that bound.
\<close>

type_synonym ty = nat
type_synonym addr = nat

datatype err = AssertFailed | BadPointer | OutOfFuel

text \<open>The class type identifiers the source compares against.\<close>

definition SoNode_t :: ty where "SoNode_t = 0"
definition SoGroup_t :: ty where "SoGroup_t = 1"
definition SoSeparator_t :: ty where "SoSeparator_t = 2"
definition SoNodeKitListPart_t :: ty where "SoNodeKitListPart_t = 3"
definition SoBaseKit_t :: ty where "SoBaseKit_t = 4"

text \<open>
  Modelled from the spec: the catalog entry of \<^verbatim>\<open>SoNodekitCatalog\<close> (the class is not
  part of the sources at hand).  One record per declared part, with the fields the spec's
  data model lists; parent and right sibling are part numbers, \<open>-1\<close> for none.
\<close>

record entry =
  ename :: string
  etype :: ty
  edefaulttype :: ty
  enullbydefault :: bool
  eleaf :: bool
  eparent :: int
  esibling :: int
  elist :: bool
  econtainertype :: ty
  eitemtypes :: "ty list"
  epublic :: bool

type_synonym catalog = "entry list"

text \<open>\<^verbatim>\<open>SO_CATALOG_NAME_NOT_FOUND\<close> is \<open>-1\<close>.\<close>

primrec getPartNumber_from :: "catalog \<Rightarrow> string \<Rightarrow> int \<Rightarrow> int" where
  "getPartNumber_from [] nm i = - 1"
| "getPartNumber_from (e # es) nm i =
     (if ename e = nm then i else getPartNumber_from es nm (i + 1))"

definition getPartNumber :: "catalog \<Rightarrow> string \<Rightarrow> int" where
  "getPartNumber cat nm = getPartNumber_from cat nm 0"

text \<open>An entry by part number; the catalog's accessors assert that the number is in range.\<close>

definition centry :: "catalog \<Rightarrow> int \<Rightarrow> entry option" where
  "centry cat i = (if 0 \<le> i \<and> i < int (length cat) then Some (cat ! nat i) else None)"

text \<open>A part field (\<^verbatim>\<open>SoSFNode\<close>): the node pointer and the field's default flag.\<close>

record sfnode =
  fvalue :: "addr option"
  fdefault :: bool

text \<open>
  Modelled from the spec: \<^verbatim>\<open>SoSFNode::setValue\<close> (class not in the sources at hand).
  The slot's flag is ``true until explicitly set'': storing a value clears the default flag.
\<close>

definition setValue :: "sfnode \<Rightarrow> addr option \<Rightarrow> sfnode" where
  "setValue f v = f\<lparr>fvalue := v, fdefault := False\<rparr>"

definition setDefault :: "sfnode \<Rightarrow> bool \<Rightarrow> sfnode" where
  "setDefault f b = f\<lparr>fdefault := b\<rparr>"

text \<open>An ordinary (non-part) field: what \<^verbatim>\<open>is_default_node\<close> and the write pass read of it.\<close>

record sfield =
  sdefault :: bool
  sconnected :: bool
  signored :: bool
  svalue :: int

text \<open>
  A node of the store.  \<open>nchildren\<close> is \<^verbatim>\<open>getChildren()\<close> (\<open>None\<close> for a node class
  without a child list); \<open>ncatalog\<close>, \<open>ninstancelist\<close>, \<open>nfieldnames\<close> and \<open>nwritedata\<close> are
  the kit's catalog, \<^verbatim>\<open>pimpl->instancelist\<close> (entry 0 is the placeholder of ``this''), the
  names of \<^verbatim>\<open>getFieldData()\<close> in declaration order and \<^verbatim>\<open>pimpl->writedata\<close>;
  \<open>ncontainer\<close>, \<open>nitemtypes\<close> and \<open>nlocked\<close> belong to a list part.
\<close>

record node =
  ntype :: ty
  nchildren :: "addr list option"
  nfields :: "sfield list"
  ncatalog :: catalog
  ninstancelist :: "sfnode list"
  nfieldnames :: "string list"
  nwritedata :: "string list option"
  ncontainer :: "addr option"
  nitemtypes :: "ty list"
  nlocked :: bool

record state =
  heap :: "addr \<Rightarrow> node option"
  nextaddr :: addr

text \<open>
  What the engine needs of the type system (\<^verbatim>\<open>SoType\<close>, external): the subtype test, whether
  a type can be instantiated, and what a fresh instance of a type looks like before its
  constructor body runs; and \<^verbatim>\<open>SoField::shouldWrite\<close> of an ordinary field of a node.
\<close>

record world =
  derived :: "ty \<Rightarrow> ty \<Rightarrow> bool"
  cancreate :: "ty \<Rightarrow> bool"
  haschildren :: "ty \<Rightarrow> bool"
  classfields :: "ty \<Rightarrow> sfield list"
  classfieldnames :: "ty \<Rightarrow> string list"
  classcatalog :: "ty \<Rightarrow> catalog"
  shouldwrite :: "addr \<Rightarrow> string \<Rightarrow> bool"

definition bnd :: "err + 'a \<Rightarrow> ('a \<Rightarrow> err + 'b) \<Rightarrow> err + 'b" where
  "bnd m f = (case m of Inl e \<Rightarrow> Inl e | Inr x \<Rightarrow> f x)"

primrec mfold :: "('a \<Rightarrow> 's \<Rightarrow> err + 's) \<Rightarrow> 'a list \<Rightarrow> 's \<Rightarrow> err + 's" where
  "mfold f [] s = Inr s"
| "mfold f (x # xs) s = bnd (f x s) (mfold f xs)"

definition upd :: "state \<Rightarrow> addr \<Rightarrow> (node \<Rightarrow> node) \<Rightarrow> state" where
  "upd s a f = (case heap s a of None \<Rightarrow> s | Some nd \<Rightarrow> s\<lparr>heap := (heap s)(a \<mapsto> f nd)\<rparr>)"

definition alloc :: "state \<Rightarrow> node \<Rightarrow> state \<times> addr" where
  "alloc s nd = (s\<lparr>heap := (heap s)(nextaddr s \<mapsto> nd), nextaddr := Suc (nextaddr s)\<rparr>, nextaddr s)"

text \<open>The part field \<open>i\<close> of kit \<open>k\<close>, and an update of it.\<close>

definition slot :: "state \<Rightarrow> addr \<Rightarrow> int \<Rightarrow> sfnode option" where
  "slot s k i =
     (case heap s k of None \<Rightarrow> None
      | Some nd \<Rightarrow> if 0 < i \<and> i < int (length (ninstancelist nd))
                   then Some (ninstancelist nd ! nat i) else None)"

definition set_slot :: "state \<Rightarrow> addr \<Rightarrow> int \<Rightarrow> (sfnode \<Rightarrow> sfnode) \<Rightarrow> state" where
  "set_slot s k i g =
     upd s k (\<lambda>nd. nd\<lparr>ninstancelist := (ninstancelist nd)[nat i := g (ninstancelist nd ! nat i)]\<rparr>)"

subsection \<open>The ordered child collection\<close>

text \<open>
  Modelled from the spec: \<^verbatim>\<open>SoChildList\<close>, ``an external ordered container with
  insert/replace/remove/find operations''.  \<open>cl_find\<close> is the position of the first
  occurrence, \<open>-1\<close> when there is none (a null pointer is never a child).
\<close>

primrec first_index :: "addr list \<Rightarrow> addr \<Rightarrow> nat" where
  "first_index [] a = 0"
| "first_index (c # cs) a = (if c = a then 0 else Suc (first_index cs a))"

definition cl_find :: "addr list \<Rightarrow> addr option \<Rightarrow> int" where
  "cl_find cs node =
     (case node of None \<Rightarrow> - 1
      | Some a \<Rightarrow> if a \<in> set cs then int (first_index cs a) else - 1)"

definition cl_set :: "addr list \<Rightarrow> nat \<Rightarrow> addr \<Rightarrow> addr list" where
  "cl_set cs i a = cs[i := a]"

definition cl_remove :: "addr list \<Rightarrow> nat \<Rightarrow> addr list" where
  "cl_remove cs i = take i cs @ drop (Suc i) cs"

definition cl_insert :: "addr list \<Rightarrow> addr \<Rightarrow> nat \<Rightarrow> addr list" where
  "cl_insert cs a i = take i cs @ a # drop i cs"

definition cl_append :: "addr list \<Rightarrow> addr \<Rightarrow> addr list" where
  "cl_append cs a = cs @ [a]"

definition set_children :: "state \<Rightarrow> addr \<Rightarrow> addr list \<Rightarrow> state" where
  "set_children s a cs = upd s a (\<lambda>nd. nd\<lparr>nchildren := Some cs\<rparr>)"

section \<open>Building and setting parts\<close>

text \<open>
  \<^verbatim>\<open>SoBaseKit::getRightSiblingIndex\<close>: the part number of the nearest built right sibling,
  \<open>-1\<close> if none.  The walk reads \<^verbatim>\<open>instancelist[sibling]\<close>; entry 0 is a null field pointer.
\<close>

primrec sibling_walk :: "nat \<Rightarrow> catalog \<Rightarrow> sfnode list \<Rightarrow> int \<Rightarrow> err + int" where
  "sibling_walk 0 cat il sib = Inl OutOfFuel"
| "sibling_walk (Suc n) cat il sib =
     (if sib \<ge> 0 then
        (if sib = 0 \<or> sib \<ge> int (length il) then Inl BadPointer
         else if fvalue (il ! nat sib) = None then
           (case centry cat sib of None \<Rightarrow> Inl AssertFailed
            | Some e \<Rightarrow> sibling_walk n cat il (esibling e))
         else Inr sib)
      else Inr sib)"

definition getRightSiblingIndex :: "nat \<Rightarrow> state \<Rightarrow> addr \<Rightarrow> int \<Rightarrow> err + int" where
  "getRightSiblingIndex n s kit partnum =
     (case heap s kit of None \<Rightarrow> Inl BadPointer
      | Some k \<Rightarrow>
          if \<not> (0 < partnum \<and> partnum < int (length (ninstancelist k))) then Inl AssertFailed
          else (case centry (ncatalog k) partnum of None \<Rightarrow> Inl AssertFailed
                | Some e \<Rightarrow> sibling_walk n (ncatalog k) (ninstancelist k) (esibling e)))"

text \<open>
  A fresh instance before the constructor body has run: \<^verbatim>\<open>createFieldList\<close> gives a kit one
  part field per catalog entry, value \<^verbatim>\<open>NULL\<close> and default flag set, after the placeholder
  for entry 0.
\<close>

definition createFieldList :: "catalog \<Rightarrow> sfnode list" where
  "createFieldList cat =
     (if cat = [] then []
      else \<lparr>fvalue = None, fdefault = False\<rparr> #
           map (\<lambda>e. \<lparr>fvalue = None, fdefault = True\<rparr>) (tl cat))"

definition fresh_node :: "world \<Rightarrow> ty \<Rightarrow> node" where
  "fresh_node w t =
     \<lparr>ntype = t,
      nchildren = (if haschildren w t then Some [] else None),
      nfields = classfields w t,
      ncatalog = classcatalog w t,
      ninstancelist = createFieldList (classcatalog w t),
      nfieldnames = classfieldnames w t,
      nwritedata = None,
      ncontainer = None,
      nitemtypes = [],
      nlocked = False\<rparr>"

text \<open>
  Modelled from the spec: the list part (\<^verbatim>\<open>SoNodeKitListPart\<close>, not in the sources at
  hand) is ``a container component holding an ordered sequence of child components''; a new
  list part owns a container of the generic group type as its only child, and
  \<open>setContainerType\<close> replaces an unlocked list's container by an instance of another type.
\<close>

definition list_attach :: "state \<Rightarrow> addr \<Rightarrow> addr \<Rightarrow> state" where
  "list_attach s l c = upd s l (\<lambda>nd. nd\<lparr>ncontainer := Some c, nchildren := Some [c]\<rparr>)"

definition list_lock :: "state \<Rightarrow> addr \<Rightarrow> ty list \<Rightarrow> state" where
  "list_lock s l ts = upd s l (\<lambda>nd. nd\<lparr>nitemtypes := nitemtypes nd @ ts, nlocked := True\<rparr>)"

text \<open>
  The second half of \<^verbatim>\<open>setPart\<close>, from \<^verbatim>\<open>assert(parent != NULL)\<close> on: the parent
  node is known, the child list is edited and the part field is set.
\<close>

definition setPart_splice :: "nat \<Rightarrow> state \<Rightarrow> addr \<Rightarrow> int \<Rightarrow> addr option \<Rightarrow> addr option \<Rightarrow> err + (state \<times> bool)" where
  "setPart_splice n s1 kit partnum node parent =
     (case parent of None \<Rightarrow> Inl AssertFailed
      | Some p \<Rightarrow>
          (case heap s1 p of None \<Rightarrow> Inl BadPointer
           | Some pn \<Rightarrow>
               (case nchildren pn of None \<Rightarrow> Inl AssertFailed
                | Some childlist \<Rightarrow>
                    (case slot s1 kit partnum of None \<Rightarrow> Inl BadPointer
                     | Some fld \<Rightarrow>
                         let oldnode = fvalue fld in
                         if oldnode = node then Inr (s1, True)
                         else if cl_find childlist node \<ge> 0 then Inr (s1, False)
                         else
                           bnd (case oldnode of
                                  Some old \<Rightarrow>
                                    let oldIdx = cl_find childlist oldnode in
                                    if \<not> oldIdx \<ge> 0 then Inl AssertFailed
                                    else (case node of
                                            Some a \<Rightarrow> Inr (set_children s1 p (cl_set childlist (nat oldIdx) a))
                                          | None \<Rightarrow> Inr (set_children s1 p (cl_remove childlist (nat oldIdx))))
                                | None \<Rightarrow>
                                    (case node of
                                       None \<Rightarrow> Inr s1
                                     | Some a \<Rightarrow>
                                         bnd (getRightSiblingIndex n s1 kit partnum)
                                           (\<lambda>rightSibling.
                                              if rightSibling \<ge> 0 then
                                                (case slot s1 kit rightSibling of None \<Rightarrow> Inl BadPointer
                                                 | Some sf \<Rightarrow>
                                                     let idx = cl_find childlist (fvalue sf) in
                                                     if \<not> idx \<ge> 0 then Inl AssertFailed
                                                     else Inr (set_children s1 p (cl_insert childlist a (nat idx))))
                                              else Inr (set_children s1 p (cl_append childlist a)))))
                             (\<lambda>s2. Inr (set_slot s2 kit partnum (\<lambda>g. setValue g node), True))))))"

text \<open>
  \<^verbatim>\<open>SoType::createInstance\<close> with the kit constructor (\<^verbatim>\<open>createDefaultParts\<close>),
  \<^verbatim>\<open>SoBaseKit::makePart\<close> and \<^verbatim>\<open>SoBaseKit::setPart(const int, SoNode *)\<close>.
\<close>

fun createInstance :: "nat \<Rightarrow> world \<Rightarrow> state \<Rightarrow> ty \<Rightarrow> err + (state \<times> addr option)"
and makePart :: "nat \<Rightarrow> world \<Rightarrow> state \<Rightarrow> addr \<Rightarrow> int \<Rightarrow> err + (state \<times> bool)"
and setPart :: "nat \<Rightarrow> world \<Rightarrow> state \<Rightarrow> addr \<Rightarrow> int \<Rightarrow> addr option \<Rightarrow> err + (state \<times> bool)"
where
  "createInstance 0 w s t = Inl OutOfFuel"
| "createInstance (Suc n) w s t =
     (if \<not> cancreate w t then Inr (s, None)
      else
        let (s1, a) = alloc s (fresh_node w t) in
        if derived w t SoBaseKit_t then
          bnd (mfold
                 (\<lambda>i s'. case slot s' a i of None \<Rightarrow> Inl BadPointer
                    | Some f \<Rightarrow>
                        (case centry (classcatalog w t) i of None \<Rightarrow> Inl AssertFailed
                         | Some e \<Rightarrow>
                             if fvalue f = None \<and> \<not> enullbydefault e then
                               bnd (makePart n w s' a i)
                                 (\<lambda>(s'', r). Inr (set_slot s'' a i (\<lambda>g. setDefault g True)))
                             else Inr s'))
                 (map int [1 ..< length (classcatalog w t)]) s1)
            (\<lambda>s2. Inr (s2, Some a))
        else if derived w t SoNodeKitListPart_t then
          let (s2, c) = alloc s1 (fresh_node w SoGroup_t) in
          Inr (list_attach s2 a c, Some a)
        else Inr (s1, Some a))"
| "makePart 0 w s kit partnum = Inl OutOfFuel"
| "makePart (Suc n) w s kit partnum =
     (case heap s kit of None \<Rightarrow> Inl BadPointer
      | Some k \<Rightarrow>
          if \<not> (0 < partnum \<and> partnum < int (length (ninstancelist k))) then Inl AssertFailed
          else
            (case centry (ncatalog k) partnum of None \<Rightarrow> Inl AssertFailed
             | Some e \<Rightarrow>
                 if fvalue (ninstancelist k ! nat partnum) \<noteq> None then Inl AssertFailed
                 else
                   bnd (createInstance n w s (edefaulttype e))
                     (\<lambda>(s1, node).
                        if elist e then
                          (case node of None \<Rightarrow> Inl BadPointer
                           | Some l \<Rightarrow>
                               bnd (if econtainertype e \<noteq> SoGroup_t then
                                      bnd (createInstance n w s1 (econtainertype e))
                                        (\<lambda>(s2, c). case c of None \<Rightarrow> Inl BadPointer
                                           | Some c' \<Rightarrow> Inr (list_attach s2 l c'))
                                    else Inr s1)
                                 (\<lambda>s3. setPart n w (list_lock s3 l (eitemtypes e)) kit partnum node))
                        else setPart n w s1 kit partnum node)))"
| "setPart 0 w s kit partnum node = Inl OutOfFuel"
| "setPart (Suc n) w s kit partnum node =
     (case heap s kit of None \<Rightarrow> Inl BadPointer
      | Some k \<Rightarrow>
          if \<not> (0 < partnum \<and> partnum < int (length (ninstancelist k))) then Inl AssertFailed
          else
            (case centry (ncatalog k) partnum of None \<Rightarrow> Inl AssertFailed
             | Some e \<Rightarrow>
                 (case (case node of None \<Rightarrow> Inr True
                        | Some a \<Rightarrow> (case heap s a of None \<Rightarrow> Inl BadPointer
                                     | Some nd \<Rightarrow> Inr (derived w (ntype nd) (etype e)))) of
                    Inl x \<Rightarrow> Inl x
                  | Inr False \<Rightarrow> Inr (s, False)
                  | Inr True \<Rightarrow>
                      let parentIdx = eparent e in
                      if \<not> (0 \<le> parentIdx \<and> parentIdx < int (length (ninstancelist k)))
                      then Inl AssertFailed
                      else
                        bnd (if parentIdx = 0 then Inr (s, Some kit)
                             else
                               (case fvalue (ninstancelist k ! nat parentIdx) of
                                  Some p \<Rightarrow> Inr (s, Some p)
                                | None \<Rightarrow>
                                    bnd (makePart n w s kit parentIdx)
                                      (\<lambda>(s1, r). Inr (s1,
                                         case slot s1 kit parentIdx of None \<Rightarrow> None
                                         | Some f \<Rightarrow> fvalue f))))
                          (\<lambda>(s1, parent). setPart_splice n s1 kit partnum node parent))))"


section \<open>The write pass\<close>

definition isPublic :: "catalog \<Rightarrow> int \<Rightarrow> bool" where
  "isPublic cat i = (case centry cat i of None \<Rightarrow> False | Some e \<Rightarrow> epublic e)"

definition isLeaf :: "catalog \<Rightarrow> int \<Rightarrow> bool" where
  "isLeaf cat i = (case centry cat i of None \<Rightarrow> False | Some e \<Rightarrow> eleaf e)"

text \<open>
  \<^verbatim>\<open>SoBaseKitP::createWriteData\<close>: three passes over the kit's fields in declaration
  order; \<open>wd\<close> is the table under construction, \<^verbatim>\<open>addField\<close> appends to it.
\<close>

primrec writedata_pass :: "catalog \<Rightarrow> nat \<Rightarrow> string list \<Rightarrow> string list \<Rightarrow> string list" where
  "writedata_pass cat pass [] wd = wd"
| "writedata_pass cat pass (nm # rest) wd =
     (let part = getPartNumber cat nm in
      if part > 0 \<and> \<not> isPublic cat part then writedata_pass cat pass rest wd
      else if (pass = 0 \<and> part < 0) \<or>
              (pass = 1 \<and> part > 0 \<and> isLeaf cat part) \<or>
              (pass = 2 \<and> part > 0 \<and> \<not> isLeaf cat part)
      then writedata_pass cat pass rest (wd @ [nm])
      else writedata_pass cat pass rest wd)"

primrec writedata_passes :: "catalog \<Rightarrow> nat list \<Rightarrow> string list \<Rightarrow> string list \<Rightarrow> string list" where
  "writedata_passes cat [] fs wd = wd"
| "writedata_passes cat (pass # ps) fs wd = writedata_passes cat ps fs (writedata_pass cat pass fs wd)"

definition write_table :: "catalog \<Rightarrow> string list \<Rightarrow> string list" where
  "write_table cat fs = writedata_passes cat [0, 1, 2] fs []"

definition createWriteData :: "state \<Rightarrow> addr \<Rightarrow> state" where
  "createWriteData s kit =
     upd s kit (\<lambda>k. k\<lparr>nwritedata := Some (write_table (ncatalog k) (nfieldnames k))\<rparr>)"

text \<open>
  A loop \<^verbatim>\<open>for (i = 1; i < n; i++)\<close> over the part fields of a kit, \<open>n\<close> the length of
  the instance list; \<open>step i\<close> is the loop body.
\<close>

definition parts_loop :: "(nat \<Rightarrow> sfnode list \<Rightarrow> err + sfnode list) \<Rightarrow> state \<Rightarrow> addr \<Rightarrow> err + state" where
  "parts_loop step s kit =
     (case heap s kit of None \<Rightarrow> Inl BadPointer
      | Some k \<Rightarrow>
          bnd (mfold step [1 ..< length (ninstancelist k)] (ninstancelist k))
            (\<lambda>il. Inr (upd s kit (\<lambda>nd. nd\<lparr>ninstancelist := il\<rparr>))))"

text \<open>The first loop of \<^verbatim>\<open>countMyFields\<close>: a null part that is not null by default is written.\<close>

definition nullpart_step :: "catalog \<Rightarrow> nat \<Rightarrow> sfnode list \<Rightarrow> err + sfnode list" where
  "nullpart_step cat i il =
     (let field = il ! i in
      if fdefault field then
        (if fvalue field = None then
           (case centry cat (int i) of None \<Rightarrow> Inl AssertFailed
            | Some e \<Rightarrow> if \<not> enullbydefault e then Inr (il[i := setDefault field False])
                        else Inr il)
         else Inr il)
      else Inr il)"

text \<open>
  \<^verbatim>\<open>is_default_node\<close>: the fields of a fresh instance of \<open>typecheck\<close> are
  \<open>classfields w typecheck\<close>; \<^verbatim>\<open>isSame\<close> compares values.
\<close>

definition num_children :: "node \<Rightarrow> nat" where
  "num_children nd = (case nchildren nd of None \<Rightarrow> 0 | Some cs \<Rightarrow> length cs)"

fun all_fields_default :: "sfield list \<Rightarrow> sfield list \<Rightarrow> bool" where
  "all_fields_default [] ds = True"
| "all_fields_default (f # fs) [] = False"
| "all_fields_default (f # fs) (d # ds) =
     (if \<not> sdefault f then False
      else if sconnected f then False
      else if svalue f \<noteq> svalue d then False
      else all_fields_default fs ds)"

definition is_default_node :: "world \<Rightarrow> node \<Rightarrow> ty \<Rightarrow> bool" where
  "is_default_node w nd typecheck =
     (if ntype nd \<noteq> typecheck then False
      else if (case nchildren nd of None \<Rightarrow> False | Some cs \<Rightarrow> length cs \<noteq> 0) then False
      else all_fields_default (nfields nd) (classfields w typecheck))"

text \<open>The container of a list part, which \<^verbatim>\<open>getNumChildren\<close> of the list part reads.\<close>

definition list_container :: "state \<Rightarrow> node \<Rightarrow> err + node" where
  "list_container s nd =
     (case ncontainer nd of None \<Rightarrow> Inl BadPointer
      | Some c \<Rightarrow> (case heap s c of None \<Rightarrow> Inl BadPointer | Some cn \<Rightarrow> Inr cn))"

text \<open>\<^verbatim>\<open>SoBaseKit::setDefaultOnNonWritingFields\<close>, the body of its loop.\<close>

definition nonwriting_step :: "world \<Rightarrow> state \<Rightarrow> catalog \<Rightarrow> nat \<Rightarrow> sfnode list \<Rightarrow> err + sfnode list" where
  "nonwriting_step w s cat i il =
     (let field = il ! i in
      if \<not> fdefault field then
        (case centry cat (int i) of None \<Rightarrow> Inl AssertFailed
         | Some e \<Rightarrow>
             (case fvalue field of
                None \<Rightarrow> if enullbydefault e then Inr (il[i := setDefault field True]) else Inr il
              | Some a \<Rightarrow>
                  (case heap s a of None \<Rightarrow> Inl BadPointer
                   | Some nd \<Rightarrow>
                       let leaf = eleaf e; type = ntype nd in
                       if leaf then
                         (if (type = SoGroup_t \<or> type = SoSeparator_t) \<and> num_children nd = 0
                          then Inr (il[i := setDefault field True])
                          else if type = SoNodeKitListPart_t then
                            bnd (list_container s nd)
                              (\<lambda>container.
                                 if num_children container = 0 \<and>
                                    (ntype container = SoSeparator_t \<or> ntype container = SoGroup_t)
                                 then Inr (il[i := setDefault field True])
                                 else Inr il)
                          else Inr il)
                       else
                         (if derived w type SoGroup_t \<and> is_default_node w nd type
                          then Inr (il[i := setDefault field True])
                          else Inr il))))
      else Inr il)"

definition setDefaultOnNonWritingFields :: "world \<Rightarrow> state \<Rightarrow> addr \<Rightarrow> err + state" where
  "setDefaultOnNonWritingFields w s kit =
     (case heap s kit of None \<Rightarrow> Inl BadPointer
      | Some k \<Rightarrow> parts_loop (nonwriting_step w s (ncatalog k)) s kit)"

text \<open>
  \<^verbatim>\<open>SoBaseKitP::testParentWrite\<close>.  \<^verbatim>\<open>SoFieldData::getIndex\<close> is not in the sources
  at hand and is a parameter \<open>gi\<close>: it is given the table, the container pointer of the
  call (the source passes the part's own node), and the field looked for, identified by the
  kit that owns it and its part number.
\<close>

type_synonym getindex = "string list \<Rightarrow> addr \<Rightarrow> addr \<Rightarrow> int \<Rightarrow> int"

definition parentwrite_step :: "getindex \<Rightarrow> catalog \<Rightarrow> string list option \<Rightarrow> addr \<Rightarrow> nat \<Rightarrow> sfnode list \<Rightarrow> err + sfnode list" where
  "parentwrite_step gi cat wd kit i il =
     (let field = il ! i in
      if fdefault field then
        (case fvalue field of
           None \<Rightarrow> Inr il
         | Some node \<Rightarrow>
             (case centry cat (int i) of None \<Rightarrow> Inl AssertFailed
              | Some e \<Rightarrow>
                  let parent = eparent e in
                  if parent > 0 then
                    (case wd of None \<Rightarrow> Inl AssertFailed
                     | Some table \<Rightarrow>
                         if \<not> parent < int (length il) then Inl BadPointer
                         else
                           let pf = il ! nat parent in
                           if fvalue pf \<noteq> None \<and> \<not> fdefault pf \<and> gi table node kit parent \<ge> 0
                           then Inr (il[i := setDefault field False])
                           else Inr il)
                  else Inr il))
      else Inr il)"

definition testParentWrite :: "getindex \<Rightarrow> state \<Rightarrow> addr \<Rightarrow> err + state" where
  "testParentWrite gi s kit =
     (case heap s kit of None \<Rightarrow> Inl BadPointer
      | Some k \<Rightarrow> parts_loop (parentwrite_step gi (ncatalog k) (nwritedata k) kit) s kit)"

text \<open>
  \<^verbatim>\<open>SoBaseKit::countMyFields\<close> in the \<^verbatim>\<open>COUNT_REFS\<close> stage.  The result lists the names
  of the fields for which \<^verbatim>\<open>field->write\<close> is called, in table order; what that call does to
  the write reference counts of other nodes is outside the model.  \<open>shouldwrite w kit nm\<close> is
  \<^verbatim>\<open>SoField::shouldWrite\<close> of the kit's non-part field \<open>nm\<close>.
\<close>

fun countMyFields :: "nat \<Rightarrow> world \<Rightarrow> getindex \<Rightarrow> state \<Rightarrow> addr \<Rightarrow> err + (state \<times> string list)" where
  "countMyFields 0 w gi s kit = Inl OutOfFuel"
| "countMyFields (Suc n) w gi s kit =
     (case heap s kit of None \<Rightarrow> Inl BadPointer
      | Some k \<Rightarrow>
          if nwritedata k \<noteq> None then Inr (s, [])
          else
            let s1 = createWriteData s kit; catalog = ncatalog k in
            bnd (parts_loop (nullpart_step catalog) s1 kit)
              (\<lambda>s2. bnd (setDefaultOnNonWritingFields w s2 kit)
                 (\<lambda>s3. bnd (testParentWrite gi s3 kit)
                    (\<lambda>s4. mfold
                       (\<lambda>name (s5, written).
                          let partnum = getPartNumber catalog name in
                          if partnum < 0 then
                            (if shouldwrite w kit name then Inr (s5, written @ [name])
                             else Inr (s5, written))
                          else
                            (case slot s5 kit partnum of None \<Rightarrow> Inl BadPointer
                             | Some field \<Rightarrow>
                                 if \<not> fdefault field then Inr (s5, written @ [name])
                                 else
                                   (case fvalue field of None \<Rightarrow> Inr (s5, written)
                                    | Some node \<Rightarrow>
                                        (case heap s5 node of None \<Rightarrow> Inl BadPointer
                                         | Some nd \<Rightarrow>
                                             if derived w (ntype nd) SoBaseKit_t then
                                               bnd (countMyFields n w gi s5 node)
                                                 (\<lambda>(s6, ws). Inr (s6, written))
                                             else Inr (s5, written)))))
                       (write_table catalog (nfieldnames k)) (s4, [])))))"

text \<open>
  Modelled from the spec: \<^verbatim>\<open>SoFieldData::write\<close> as the \<^verbatim>\<open>WRITE\<close> stage calls it on the
  table (the class is not in the sources at hand): ``iterate the reordered field table in
  order; non-part fields use their normal write check; part fields are written only if
  non-default''.  The result is the list of emitted field names.
\<close>

definition writedata_write :: "world \<Rightarrow> state \<Rightarrow> addr \<Rightarrow> string list" where
  "writedata_write w s kit =
     (case heap s kit of None \<Rightarrow> []
      | Some k \<Rightarrow>
          (case nwritedata k of None \<Rightarrow> []
           | Some table \<Rightarrow>
               filter (\<lambda>name.
                   let partnum = getPartNumber (ncatalog k) name in
                   if partnum < 0 then shouldwrite w kit name
                   else (case slot s kit partnum of None \<Rightarrow> False | Some field \<Rightarrow> \<not> fdefault field))
                 table))"

section \<open>Observations used to state the properties\<close>

definition writedata_of :: "state \<Rightarrow> addr \<Rightarrow> string list option" where
  "writedata_of s kit = (case heap s kit of None \<Rightarrow> None | Some k \<Rightarrow> nwritedata k)"

definition children_of :: "state \<Rightarrow> addr \<Rightarrow> addr list option" where
  "children_of s a = (case heap s a of None \<Rightarrow> None | Some nd \<Rightarrow> nchildren nd)"

definition part_value :: "state \<Rightarrow> addr \<Rightarrow> int \<Rightarrow> addr option" where
  "part_value s kit p = (case slot s kit p of None \<Rightarrow> None | Some f \<Rightarrow> fvalue f)"

text \<open>
  The node under which part \<open>p\<close> hangs, as \<^verbatim>\<open>setPart\<close> resolves it when nothing has to
  be built: the kit itself for parent number 0, else the parent part's node.
\<close>

definition part_parent :: "state \<Rightarrow> addr \<Rightarrow> int \<Rightarrow> addr option" where
  "part_parent s kit p =
     (case heap s kit of None \<Rightarrow> None
      | Some k \<Rightarrow>
          (case centry (ncatalog k) p of None \<Rightarrow> None
           | Some e \<Rightarrow> if eparent e = 0 then Some kit else part_value s kit (eparent e)))"

text \<open>
  The four tests of \<^verbatim>\<open>setDefaultOnNonWritingFields\<close> on a part with catalog entry \<open>e\<close>
  and field \<open>f\<close>, as the source applies them; \<open>spec_policy_d\<close> is the fourth test in the
  words of the specification (``of exactly its default type'').
\<close>

definition policy_a :: "entry \<Rightarrow> sfnode \<Rightarrow> bool" where
  "policy_a e f = (fvalue f = None \<and> enullbydefault e)"

definition policy_b :: "state \<Rightarrow> entry \<Rightarrow> sfnode \<Rightarrow> bool" where
  "policy_b s e f =
     (case fvalue f of None \<Rightarrow> False
      | Some a \<Rightarrow>
          (case heap s a of None \<Rightarrow> False
           | Some nd \<Rightarrow> eleaf e \<and> (ntype nd = SoGroup_t \<or> ntype nd = SoSeparator_t)
                        \<and> num_children nd = 0))"

definition policy_c :: "state \<Rightarrow> entry \<Rightarrow> sfnode \<Rightarrow> bool" where
  "policy_c s e f =
     (case fvalue f of None \<Rightarrow> False
      | Some a \<Rightarrow>
          (case heap s a of None \<Rightarrow> False
           | Some nd \<Rightarrow>
               eleaf e \<and> ntype nd = SoNodeKitListPart_t \<and>
               (case list_container s nd of Inl x \<Rightarrow> False
                | Inr cn \<Rightarrow> num_children cn = 0 \<and>
                            (ntype cn = SoSeparator_t \<or> ntype cn = SoGroup_t))))"

definition policy_d :: "world \<Rightarrow> state \<Rightarrow> entry \<Rightarrow> sfnode \<Rightarrow> bool" where
  "policy_d w s e f =
     (case fvalue f of None \<Rightarrow> False
      | Some a \<Rightarrow>
          (case heap s a of None \<Rightarrow> False
           | Some nd \<Rightarrow>
               \<not> eleaf e \<and> derived w (ntype nd) SoGroup_t \<and> num_children nd = 0 \<and>
               all_fields_default (nfields nd) (classfields w (ntype nd))))"

definition spec_policy_d :: "world \<Rightarrow> state \<Rightarrow> entry \<Rightarrow> sfnode \<Rightarrow> bool" where
  "spec_policy_d w s e f =
     (case fvalue f of None \<Rightarrow> False
      | Some a \<Rightarrow>
          (case heap s a of None \<Rightarrow> False
           | Some nd \<Rightarrow>
               \<not> eleaf e \<and> ntype nd = edefaulttype e \<and> num_children nd = 0 \<and>
               all_fields_default (nfields nd) (classfields w (ntype nd))))"

text \<open>
  The instance hierarchy invariant for part \<open>i\<close> of a kit: if the part is built, its node is
  a child of the part's parent node, and it stands immediately before the node of the
  nearest built right sibling, or last when no right sibling is built.
\<close>

definition part_in_place :: "state \<Rightarrow> addr \<Rightarrow> int \<Rightarrow> bool" where
  "part_in_place s kit i =
     (case part_value s kit i of None \<Rightarrow> True
      | Some c \<Rightarrow>
          (case part_parent s kit i of None \<Rightarrow> False
           | Some par \<Rightarrow>
               (case children_of s par of None \<Rightarrow> False
                | Some cs \<Rightarrow>
                    c \<in> set cs \<and>
                    (case heap s kit of None \<Rightarrow> False
                     | Some k \<Rightarrow>
                         (case getRightSiblingIndex (length (ncatalog k)) s kit i of
                            Inl x \<Rightarrow> False
                          | Inr r \<Rightarrow>
                              if r \<ge> 0 then
                                (case part_value s kit r of None \<Rightarrow> False
                                 | Some sc \<Rightarrow> cl_find cs (Some sc) = cl_find cs (Some c) + 1)
                              else cl_find cs (Some c) = int (length cs) - 1)))))"

definition hierarchy_inv :: "state \<Rightarrow> addr \<Rightarrow> bool" where
  "hierarchy_inv s kit =
     (case heap s kit of None \<Rightarrow> False
      | Some k \<Rightarrow> list_all (\<lambda>i. part_in_place s kit (int i)) [1 ..< length (ninstancelist k)])"

text \<open>
  The walk along the catalog's right-sibling chain in the words of the specification:
  from \<open>sib\<close> on, after \<open>k\<close> steps over parts that are not built, \<open>r\<close> is the first
  built part met, or the negative number the chain ends with.
\<close>

inductive nearest_sibling :: "catalog \<Rightarrow> sfnode list \<Rightarrow> int \<Rightarrow> nat \<Rightarrow> int \<Rightarrow> bool" where
  ns_none: "sib < 0 \<Longrightarrow> nearest_sibling cat il sib 0 sib"
| ns_built: "0 < sib \<Longrightarrow> sib < int (length il) \<Longrightarrow> fvalue (il ! nat sib) \<noteq> None \<Longrightarrow>
     nearest_sibling cat il sib 0 sib"
| ns_next: "0 < sib \<Longrightarrow> sib < int (length il) \<Longrightarrow> fvalue (il ! nat sib) = None \<Longrightarrow>
     centry cat sib = Some e \<Longrightarrow> nearest_sibling cat il (esibling e) k r \<Longrightarrow>
     nearest_sibling cat il sib (Suc k) r"
section \<open>Auxiliary notions for the proofs\<close>

text \<open>
  A loop body over the part fields that changes at most the field it visits, and relates
  that field's old and new value by \<open>Q\<close>.
\<close>

definition part_rel ::
  "(nat \<Rightarrow> sfnode \<Rightarrow> sfnode \<Rightarrow> bool) \<Rightarrow> (nat \<Rightarrow> sfnode list \<Rightarrow> err + sfnode list) \<Rightarrow> bool" where
  "part_rel Q step =
     (\<forall>i il il'. step i il = Inr il' \<longrightarrow> i < length il \<longrightarrow>
        length il' = length il \<and> (\<forall>j. j \<noteq> i \<longrightarrow> il' ! j = il ! j) \<and> Q i (il ! i) (il' ! i))"

text \<open>What one visit of \<^verbatim>\<open>setDefaultOnNonWritingFields\<close> does to a part field.\<close>

definition nonwriting_rel :: "world \<Rightarrow> state \<Rightarrow> catalog \<Rightarrow> nat \<Rightarrow> sfnode \<Rightarrow> sfnode \<Rightarrow> bool" where
  "nonwriting_rel w s cat i f f' =
     (fvalue f' = fvalue f \<and>
      (fdefault f' \<longleftrightarrow> fdefault f \<or>
         (\<exists>e. centry cat (int i) = Some e \<and>
              (policy_a e f \<or> policy_b s e f \<or> policy_c s e f \<or> policy_d w s e f))))"

text \<open>
  Notions for the frame properties of the builders: \<open>frame_below N s s'\<close> says that the
  nodes at addresses below \<open>N\<close> are the same in both stores, \<open>slots_ge N s kit\<close> that every
  part of \<open>kit\<close> lives at an address from \<open>N\<close> on, and \<open>evolves s s'\<close> that \<open>s'\<close> is reached
  from \<open>s\<close> by allocations and by updates that keep every node's class, catalog and
  number of part fields.
\<close>

definition slots_ge :: "nat \<Rightarrow> state \<Rightarrow> addr \<Rightarrow> bool" where
  "slots_ge N s kit =
     (\<forall>k. heap s kit = Some k \<longrightarrow> (\<forall>f \<in> set (ninstancelist k). \<forall>v. fvalue f = Some v \<longrightarrow> N \<le> v))"

definition frame_below :: "nat \<Rightarrow> state \<Rightarrow> state \<Rightarrow> bool" where
  "frame_below N s s' = (\<forall>a < N. heap s' a = heap s a)"

definition createDefaultParts_step :: "nat \<Rightarrow> world \<Rightarrow> addr \<Rightarrow> catalog \<Rightarrow> int \<Rightarrow> state \<Rightarrow> err + state" where
  "createDefaultParts_step n w a cat i s' =
     (case slot s' a i of None \<Rightarrow> Inl BadPointer
      | Some f \<Rightarrow>
          (case centry cat i of None \<Rightarrow> Inl AssertFailed
           | Some e \<Rightarrow>
               if fvalue f = None \<and> \<not> enullbydefault e then
                 bnd (makePart n w s' a i)
                   (\<lambda>(s'', r). Inr (set_slot s'' a i (\<lambda>g. setDefault g True)))
               else Inr s'))"

definition frame_ci :: "nat \<Rightarrow> bool" where
  "frame_ci n = (\<forall>w s t s' r. createInstance n w s t = Inr (s', r) \<longrightarrow>
      frame_below (nextaddr s) s s' \<and> nextaddr s \<le> nextaddr s'
      \<and> (\<forall>a. r = Some a \<longrightarrow> nextaddr s \<le> a \<and> a < nextaddr s'))"

definition frame_mk :: "nat \<Rightarrow> bool" where
  "frame_mk n = (\<forall>w s kit p s' r N. makePart n w s kit p = Inr (s', r) \<longrightarrow>
      N \<le> kit \<longrightarrow> kit < nextaddr s \<longrightarrow> slots_ge N s kit \<longrightarrow>
      frame_below N s s' \<and> nextaddr s \<le> nextaddr s' \<and> slots_ge N s' kit)"

definition frame_sp :: "nat \<Rightarrow> bool" where
  "frame_sp n = (\<forall>w s kit p node s' r N. setPart n w s kit p node = Inr (s', r) \<longrightarrow>
      N \<le> kit \<longrightarrow> kit < nextaddr s \<longrightarrow> slots_ge N s kit \<longrightarrow> (\<forall>a. node = Some a \<longrightarrow> N \<le> a) \<longrightarrow>
      frame_below N s s' \<and> nextaddr s \<le> nextaddr s' \<and> slots_ge N s' kit)"

definition keeps_shape :: "node \<Rightarrow> node \<Rightarrow> bool" where
  "keeps_shape nd nd' =
     (ntype nd' = ntype nd \<and> ncatalog nd' = ncatalog nd \<and> nfields nd' = nfields nd
      \<and> nfieldnames nd' = nfieldnames nd
      \<and> length (ninstancelist nd') = length (ninstancelist nd))"

inductive evolves :: "state \<Rightarrow> state \<Rightarrow> bool" where
  ev_refl: "evolves s s"
| ev_alloc: "evolves s s1 \<Longrightarrow> evolves s (fst (alloc s1 nd))"
| ev_upd: "evolves s s1 \<Longrightarrow> (\<And>nd. keeps_shape nd (g nd)) \<Longrightarrow> evolves s (upd s1 a g)"

definition ev_ci :: "nat \<Rightarrow> bool" where
  "ev_ci n = (\<forall>w s t s' r. createInstance n w s t = Inr (s', r) \<longrightarrow> evolves s s')"

definition ev_mk :: "nat \<Rightarrow> bool" where
  "ev_mk n = (\<forall>w s kit p s' r. makePart n w s kit p = Inr (s', r) \<longrightarrow> evolves s s')"

definition ev_sp :: "nat \<Rightarrow> bool" where
  "ev_sp n = (\<forall>w s kit p node s' r. setPart n w s kit p node = Inr (s', r) \<longrightarrow> evolves s s')"


text \<open>
  The slots of a kit after \<^verbatim>\<open>makePart\<close> and \<^verbatim>\<open>setPart\<close> hold what they held before, the
  node handed in, or a node allocated during the call.
\<close>

definition new_mk :: "nat \<Rightarrow> bool" where
  "new_mk n = (\<forall>w s kit p s' r. makePart n w s kit p = Inr (s', r) \<longrightarrow> kit < nextaddr s \<longrightarrow>
      (\<forall>i v. part_value s' kit i = Some v \<longrightarrow> part_value s kit i = Some v \<or> nextaddr s \<le> v))"

definition new_sp :: "nat \<Rightarrow> bool" where
  "new_sp n = (\<forall>w s kit p node s' r. setPart n w s kit p node = Inr (s', r) \<longrightarrow> kit < nextaddr s \<longrightarrow>
      (\<forall>i v. part_value s' kit i = Some v \<longrightarrow>
         part_value s kit i = Some v \<or> node = Some v \<or> nextaddr s \<le> v))"
section \<open>Resolving part names\<close>

text \<open>
  Modelled from the spec: the list part's operations (\<^verbatim>\<open>SoNodeKitListPart\<close> is not in the
  sources at hand).  The list's elements are the children of its container; a default
  child is an instance of the first allowed item type that can be instantiated, appended
  at the end (``new element only permitted at index == current length'').
\<close>

definition list_getNumChildren :: "state \<Rightarrow> addr \<Rightarrow> err + nat" where
  "list_getNumChildren s l =
     (case heap s l of None \<Rightarrow> Inl BadPointer
      | Some nd \<Rightarrow> bnd (list_container s nd) (\<lambda>cn. Inr (num_children cn)))"

definition list_getChild :: "state \<Rightarrow> addr \<Rightarrow> int \<Rightarrow> err + addr" where
  "list_getChild s l i =
     (case heap s l of None \<Rightarrow> Inl BadPointer
      | Some nd \<Rightarrow>
          bnd (list_container s nd)
            (\<lambda>cn. case nchildren cn of None \<Rightarrow> Inl AssertFailed
               | Some cs \<Rightarrow> if 0 \<le> i \<and> i < int (length cs) then Inr (cs ! nat i)
                            else Inl AssertFailed))"

definition list_addChild :: "state \<Rightarrow> addr \<Rightarrow> addr \<Rightarrow> err + state" where
  "list_addChild s l c =
     (case heap s l of None \<Rightarrow> Inl BadPointer
      | Some nd \<Rightarrow>
          (case ncontainer nd of None \<Rightarrow> Inl BadPointer
           | Some ca \<Rightarrow>
               (case heap s ca of None \<Rightarrow> Inl BadPointer
                | Some cn \<Rightarrow>
                    (case nchildren cn of None \<Rightarrow> Inl AssertFailed
                     | Some cs \<Rightarrow> Inr (set_children s ca (cl_append cs c))))))"

definition canCreateDefaultChild :: "world \<Rightarrow> state \<Rightarrow> addr \<Rightarrow> bool" where
  "canCreateDefaultChild w s l =
     (case heap s l of None \<Rightarrow> False | Some nd \<Rightarrow> list_ex (cancreate w) (nitemtypes nd))"

definition createAndAddDefaultChild :: "nat \<Rightarrow> world \<Rightarrow> state \<Rightarrow> addr \<Rightarrow> err + (state \<times> addr option)" where
  "createAndAddDefaultChild n w s l =
     (case heap s l of None \<Rightarrow> Inl BadPointer
      | Some nd \<Rightarrow>
          (case List.find (cancreate w) (nitemtypes nd) of
             None \<Rightarrow> Inr (s, None)
           | Some t \<Rightarrow>
               bnd (createInstance n w s t)
                 (\<lambda>(s1, c). case c of None \<Rightarrow> Inr (s1, None)
                    | Some c' \<Rightarrow> bnd (list_addChild s1 l c') (\<lambda>s2. Inr (s2, Some c')))))"

text \<open>
  String helpers.  \<open>strchr\<close> is the position of the first occurrence of a character.
  \<open>strtol\<close> is the C library's conversion in base 10 for a 64-bit \<^verbatim>\<open>long\<close>: leading
  white space, an optional sign, then digits; no digits give 0; the result saturates at
  \<^verbatim>\<open>LONG_MIN\<close> and \<^verbatim>\<open>LONG_MAX\<close>.  \<open>to_int\<close> is the cast to a 32-bit \<^verbatim>\<open>int\<close>.
\<close>

primrec strchr :: "string \<Rightarrow> char \<Rightarrow> nat option" where
  "strchr [] c = None"
| "strchr (x # xs) c = (if x = c then Some 0 else map_option Suc (strchr xs c))"

definition coin_isspace :: "char \<Rightarrow> bool" where
  "coin_isspace c = (c \<in> set [CHR 0x20, CHR 0x09, CHR 0x0A, CHR 0x0B, CHR 0x0C, CHR 0x0D])"

definition LONG_MAX :: int where "LONG_MAX = 9223372036854775807"
definition LONG_MIN :: int where "LONG_MIN = - 9223372036854775808"

definition digit_val :: "char \<Rightarrow> int option" where
  "digit_val c =
     (let code = (of_char c :: nat) in
      if 48 \<le> code \<and> code \<le> 57 then Some (int code - 48) else None)"

primrec digits_value :: "string \<Rightarrow> int \<Rightarrow> int" where
  "digits_value [] acc = acc"
| "digits_value (c # cs) acc =
     (case digit_val c of None \<Rightarrow> acc | Some d \<Rightarrow> digits_value cs (10 * acc + d))"

definition strtol :: "string \<Rightarrow> int" where
  "strtol str =
     (let s1 = dropWhile coin_isspace str;
          neg = (s1 \<noteq> [] \<and> hd s1 = CHR ''-'');
          s2 = (if s1 \<noteq> [] \<and> (hd s1 = CHR ''-'' \<or> hd s1 = CHR ''+'') then tl s1 else s1);
          v = (if neg then - digits_value s2 0 else digits_value s2 0)
      in if v > LONG_MAX then LONG_MAX else if v < LONG_MIN then LONG_MIN else v)"

definition to_int :: "int \<Rightarrow> int" where
  "to_int x = (x + 2147483648) mod 4294967296 - 2147483648"

text \<open>
  Modelled from the spec: \<^verbatim>\<open>SbString::getSubString(start, end)\<close> (class not in the
  sources at hand) is the segment from \<open>start\<close> to \<open>end\<close> inclusive, with \<open>end = -1\<close> for
  ``up to the end of the string''.
\<close>

definition getSubString :: "string \<Rightarrow> nat \<Rightarrow> int \<Rightarrow> string" where
  "getSubString str start endchar =
     (if endchar = - 1 then drop start str
      else take (nat (endchar + 1) - start) (drop start str))"

text \<open>The first index of the list at which \<open>f\<close> finds something; the loop stops there.\<close>

primrec first_found ::
  "('i \<Rightarrow> 's \<Rightarrow> err + ('s \<times> 'r option)) \<Rightarrow> 'i list \<Rightarrow> 's \<Rightarrow> err + ('s \<times> 'r option)" where
  "first_found f [] s = Inr (s, None)"
| "first_found f (i # is) s =
     bnd (f i s) (\<lambda>(s', r). case r of Some x \<Rightarrow> Inr (s', Some x) | None \<Rightarrow> first_found f is s')"

text \<open>
  \<^verbatim>\<open>SoBaseKit::findPart\<close> with a null \<^verbatim>\<open>path\<close> argument, as \<^verbatim>\<open>getAnyPart\<close>,
  \<^verbatim>\<open>setAnyPart\<close> and \<^verbatim>\<open>set\<close> call it (the blocks under \<^verbatim>\<open>if (path)\<close> are not taken).
  The result \<open>Some (kit, partnum, islist, listidx)\<close> stands for \<^verbatim>\<open>TRUE\<close> with the values of
  the reference parameters, \<open>None\<close> for \<^verbatim>\<open>FALSE\<close>; \<open>listidx\<close> is assigned by the source only
  when \<open>islist\<close> is set, and reads 0 here otherwise.  The function is given in four pieces:
  the parsing of the first segment, the search in the leaf kits when the name is not in the
  catalog, the step from a segment into the kit it names, and the function itself.
\<close>

type_synonym found = "addr \<times> int \<times> bool \<times> int"

text \<open>
  The first segment of a part name: its name, whether it carries a bracket index, the
  index, and the position of the first period (\<open>None\<close> when there is no period).  \<open>None\<close>
  is the case ``list index not properly specified''.
\<close>

definition first_segment :: "string \<Rightarrow> (string \<times> bool \<times> int \<times> nat option) option" where
  "first_segment partname =
     (let periodptr = strchr partname CHR ''.'';
          startbracket =
            (case strchr partname CHR ''['' of None \<Rightarrow> None
             | Some sb \<Rightarrow>
                 (case periodptr of None \<Rightarrow> Some sb
                  | Some pp \<Rightarrow> if sb > pp then None else Some sb))
      in
      (case startbracket of
         Some sb \<Rightarrow>
           let listindex = strtol (drop (Suc sb) partname) in
           if listindex = LONG_MIN \<or> listindex = LONG_MAX then None
           else Some (getSubString partname 0 (int sb - 1), True, to_int listindex, periodptr)
       | None \<Rightarrow>
           (case periodptr of
              Some pp \<Rightarrow> Some (getSubString partname 0 (int pp - 1), False, 0, periodptr)
            | None \<Rightarrow> Some (partname, False, 0, periodptr))))"

text \<open>
  One round of the loop over the leaf kits of \<open>kit\<close> (\<^verbatim>\<open>recsearch\<close>): \<open>search\<close> is the
  recursive call of \<^verbatim>\<open>findPart\<close> with the same part name on the nested kit.
\<close>

definition leafkit_probe ::
  "nat \<Rightarrow> world \<Rightarrow> (state \<Rightarrow> addr \<Rightarrow> err + (state \<times> found option)) \<Rightarrow> catalog \<Rightarrow> addr
     \<Rightarrow> nat \<Rightarrow> state \<Rightarrow> err + (state \<times> found option)" where
  "leafkit_probe n w search cat kit i s' =
     (case centry cat (int i) of None \<Rightarrow> Inl AssertFailed
      | Some e \<Rightarrow>
          if eleaf e \<and> derived w (etype e) SoBaseKit_t then
            (case slot s' kit (int i) of None \<Rightarrow> Inl BadPointer
             | Some fld \<Rightarrow>
                 let didexist = (fvalue fld \<noteq> None) in
                 bnd (if \<not> didexist then
                        bnd (makePart n w s' kit (int i))
                          (\<lambda>(s1, r). Inr (s1, part_value s1 kit (int i)))
                      else Inr (s', fvalue fld))
                   (\<lambda>(s1, sub).
                      case sub of None \<Rightarrow> Inl BadPointer
                      | Some subkit \<Rightarrow>
                          bnd (search s1 subkit)
                            (\<lambda>(s2, res).
                               case res of Some f \<Rightarrow> Inr (s2, Some f)
                               | None \<Rightarrow>
                                   if \<not> didexist then
                                     bnd (setPart n w s2 kit (int i) None)
                                       (\<lambda>(s3, r). Inr (s3, None))
                                   else Inr (s2, None))))
          else Inr (s', None))"

text \<open>
  The step of the \<^verbatim>\<open>else { // recurse\<close> branch from the part \<open>partnum\<close> of \<open>kit\<close> into the
  kit the search continues in; \<open>None\<close> is \<^verbatim>\<open>return FALSE\<close>.  For a list segment the source
  calls \<^verbatim>\<open>createAndAddDefaultChild\<close> in the \<^verbatim>\<open>else\<close> branch of the bounds test, that
  is, for every index that passed the test.
\<close>

definition findPart_descend ::
  "nat \<Rightarrow> world \<Rightarrow> state \<Rightarrow> addr \<Rightarrow> int \<Rightarrow> bool \<Rightarrow> int \<Rightarrow> bool \<Rightarrow> err + (state \<times> addr option)" where
  "findPart_descend n w s1 kit partnum islist listidx makeifneeded =
     (case part_value s1 kit partnum of
        None \<Rightarrow> Inr (s1, None)
      | Some node \<Rightarrow>
          if islist then
            bnd (list_getNumChildren s1 node)
              (\<lambda>numlistchildren.
                 if listidx < 0 \<or> listidx > int numlistchildren \<or>
                    (\<not> makeifneeded \<and> listidx = int numlistchildren)
                 then Inr (s1, None)
                 else
                   bnd (createAndAddDefaultChild n w s1 node)
                     (\<lambda>(s2, c).
                        bnd (list_getChild s2 node listidx)
                          (\<lambda>partnode.
                             case heap s2 partnode of None \<Rightarrow> Inl BadPointer
                             | Some pn \<Rightarrow>
                                 if \<not> derived w (ntype pn) SoBaseKit_t then Inl AssertFailed
                                 else Inr (s2, Some partnode))))
          else
            (case heap s1 node of None \<Rightarrow> Inl BadPointer
             | Some nd \<Rightarrow>
                 if \<not> derived w (ntype nd) SoBaseKit_t then Inl AssertFailed
                 else Inr (s1, Some node)))"

fun findPart :: "nat \<Rightarrow> world \<Rightarrow> state \<Rightarrow> addr \<Rightarrow> string \<Rightarrow> bool \<Rightarrow> bool \<Rightarrow> err + (state \<times> found option)" where
  "findPart 0 w s kit partname makeifneeded recsearch = Inl OutOfFuel"
| "findPart (Suc n) w s kit partname makeifneeded recsearch =
     (if partname = ''this'' then Inr (s, Some (kit, 0, False, 0))
      else
        (case first_segment partname of
           None \<Rightarrow> Inr (s, None)
         | Some (firstpartname, islist, listidx, periodptr) \<Rightarrow>
             (case heap s kit of None \<Rightarrow> Inl BadPointer
              | Some k \<Rightarrow>
                  let partnum = getPartNumber (ncatalog k) firstpartname in
                  if partnum = - 1 then
                    (if recsearch then
                       first_found
                         (leafkit_probe n w
                            (\<lambda>s1 subkit. findPart n w s1 subkit partname makeifneeded recsearch)
                            (ncatalog k) kit)
                         [1 ..< length (ninstancelist k)] s
                     else Inr (s, None))
                  else if \<not> partnum < int (length (ninstancelist k)) then Inl AssertFailed
                  else if partnum = 0 then Inl AssertFailed
                  else
                    bnd (if makeifneeded \<and> fvalue (ninstancelist k ! nat partnum) = None
                         then bnd (makePart n w s kit partnum) (\<lambda>(s1, r). Inr s1)
                         else Inr s)
                      (\<lambda>s1.
                         case periodptr of
                           None \<Rightarrow> Inr (s1, Some (kit, partnum, islist, listidx))
                         | Some pp \<Rightarrow>
                             bnd (findPart_descend n w s1 kit partnum islist listidx makeifneeded)
                               (\<lambda>(s2, next).
                                  case next of None \<Rightarrow> Inr (s2, None)
                                  | Some kit' \<Rightarrow>
                                      findPart n w s2 kit' (drop (Suc pp) partname)
                                        makeifneeded recsearch)))))"

text \<open>\<^verbatim>\<open>SoBaseKit::getAnyPart\<close> and \<^verbatim>\<open>SoBaseKit::getPart\<close>.\<close>

definition getAnyPart ::
  "nat \<Rightarrow> world \<Rightarrow> state \<Rightarrow> addr \<Rightarrow> string \<Rightarrow> bool \<Rightarrow> bool \<Rightarrow> bool \<Rightarrow> err + (state \<times> addr option)" where
  "getAnyPart n w s this partname makeifneeded leafcheck publiccheck =
     bnd (findPart n w s this partname makeifneeded True)
       (\<lambda>(s1, res).
          case res of None \<Rightarrow> Inr (s1, None)
          | Some (kit, partNum, isList, listIdx) \<Rightarrow>
              (case heap s1 kit of None \<Rightarrow> Inl BadPointer
               | Some k \<Rightarrow>
                   if \<not> publiccheck \<or> isPublic (ncatalog k) partNum then
                     (if \<not> leafcheck \<or> isLeaf (ncatalog k) partNum then
                        (case slot s1 kit partNum of None \<Rightarrow> Inl BadPointer
                         | Some fld \<Rightarrow>
                             if isList then
                               (case fvalue fld of None \<Rightarrow> Inr (s1, None)
                                | Some list \<Rightarrow>
                                    (case heap s1 list of None \<Rightarrow> Inl BadPointer
                                     | Some ln \<Rightarrow>
                                         if \<not> derived w (ntype ln) SoNodeKitListPart_t
                                         then Inl AssertFailed
                                         else
                                           bnd (list_getNumChildren s1 list)
                                             (\<lambda>num.
                                                if listIdx \<ge> 0 \<and> listIdx < int num then
                                                  bnd (list_getChild s1 list listIdx)
                                                    (\<lambda>c. Inr (s1, Some c))
                                                else if makeifneeded \<and> listIdx = int num then
                                                  createAndAddDefaultChild n w s1 list
                                                else Inr (s1, None))))
                             else Inr (s1, fvalue fld))
                      else Inr (s1, None))
                   else Inr (s1, None)))"

definition getPart :: "nat \<Rightarrow> world \<Rightarrow> state \<Rightarrow> addr \<Rightarrow> string \<Rightarrow> bool \<Rightarrow> err + (state \<times> addr option)" where
  "getPart n w s this partname makeifneeded = getAnyPart n w s this partname makeifneeded True True"

section \<open>A concrete kit\<close>

text \<open>
  Types: 5 is an abstract shape class, 6 a cube derived from it, 7 a transform, 8 a label
  (a node class without children), 9 a class derived from the separator, 10 a kit class with the catalog \<open>demo_catalog\<close> and one
  ordinary field \<open>renderCaching\<close>, 11 a kit class with one list part, 12 a kit class without
  parts (the list's item type).
\<close>

definition ex_entry :: "string \<Rightarrow> ty \<Rightarrow> ty \<Rightarrow> bool \<Rightarrow> bool \<Rightarrow> int \<Rightarrow> int \<Rightarrow> bool \<Rightarrow> entry" where
  "ex_entry nm t dt nbd lf par sib pub =
     \<lparr>ename = nm, etype = t, edefaulttype = dt, enullbydefault = nbd, eleaf = lf,
      eparent = par, esibling = sib, elist = False, econtainertype = 0, eitemtypes = [],
      epublic = pub\<rparr>"

definition demo_catalog :: catalog where
  "demo_catalog =
     [ex_entry ''this'' 10 10 True False (- 1) (- 1) False,
      ex_entry ''topSeparator'' 2 2 True False 0 4 True,
      ex_entry ''transform'' 7 7 True True 1 3 True,
      ex_entry ''shape'' 5 6 False True 1 (- 1) True,
      ex_entry ''a'' 11 11 True True 0 5 True,
      ex_entry ''label'' 8 8 False True 0 6 True,
      ex_entry ''hidden'' 7 7 True True 0 (- 1) False]"

definition inner_catalog :: catalog where
  "inner_catalog =
     [ex_entry ''this'' 11 11 True False (- 1) (- 1) False,
      (ex_entry ''b'' 3 3 True True 0 (- 1) True)
        \<lparr>elist := True, econtainertype := 1, eitemtypes := [12]\<rparr>]"

definition item_catalog :: catalog where
  "item_catalog = [ex_entry ''this'' 12 12 True True (- 1) (- 1) False]"

definition demo_world :: world where
  "demo_world =
     \<lparr>derived = (\<lambda>a b. a = b \<or> b = 0 \<or>
                 (a, b) \<in> set [(2, 1), (6, 5), (9, 2), (9, 1), (10, 4), (11, 4), (12, 4)]),
      cancreate = (\<lambda>t. t \<noteq> 5),
      haschildren = (\<lambda>t. t \<in> set [1, 2, 3, 4, 9, 10, 11, 12]),
      classfields = (\<lambda>t. []),
      classfieldnames =
        (\<lambda>t. if t = 10 then [''topSeparator'', ''renderCaching'', ''transform'', ''shape'',
                              ''a'', ''label'', ''hidden'']
              else if t = 11 then [''b''] else []),
      classcatalog =
        (\<lambda>t. if t = 10 then demo_catalog else if t = 11 then inner_catalog
              else if t = 12 then item_catalog else []),
      shouldwrite = (\<lambda>a nm. False)\<rparr>"

definition empty_state :: state where
  "empty_state = \<lparr>heap = (\<lambda>a. None), nextaddr = 0\<rparr>"

text \<open>
  The store after constructing one kit of class 10: the kit at address 0, its default shape
  (a cube) at 1, the separator built as the shape's parent at 2 and its default label at 3.
\<close>

definition demo_kit :: node where
  "demo_kit = (fresh_node demo_world 10)
     \<lparr>nchildren := Some [2, 3],
      ninstancelist :=
        [\<lparr>fvalue = None, fdefault = False\<rparr>, \<lparr>fvalue = Some 2, fdefault = False\<rparr>,
         \<lparr>fvalue = None, fdefault = True\<rparr>, \<lparr>fvalue = Some 1, fdefault = True\<rparr>,
         \<lparr>fvalue = None, fdefault = True\<rparr>, \<lparr>fvalue = Some 3, fdefault = True\<rparr>,
         \<lparr>fvalue = None, fdefault = True\<rparr>]\<rparr>"

definition demo_cube :: node where
  "demo_cube = fresh_node demo_world 6"

definition demo_sep :: node where
  "demo_sep = (fresh_node demo_world 2)\<lparr>nchildren := Some [1]\<rparr>"

definition demo_label :: node where
  "demo_label = fresh_node demo_world 8"

definition demo_state :: state where
  "demo_state =
     \<lparr>heap = (\<lambda>a. if a = 0 then Some demo_kit else if a = 1 then Some demo_cube
                  else if a = 2 then Some demo_sep else if a = 3 then Some demo_label
                  else None),
      nextaddr = 4\<rparr>"

text \<open>
  The same kit after its shape has been cleared and its separator replaced by a fresh node
  of class 9 (at address 4): the separator part is non-default and holds a childless node
  whose class is not the catalog's default class.
\<close>

definition demo_kit2 :: node where
  "demo_kit2 = (fresh_node demo_world 10)
     \<lparr>nchildren := Some [4, 3],
      ninstancelist :=
        [\<lparr>fvalue = None, fdefault = False\<rparr>, \<lparr>fvalue = Some 4, fdefault = False\<rparr>,
         \<lparr>fvalue = None, fdefault = True\<rparr>, \<lparr>fvalue = None, fdefault = False\<rparr>,
         \<lparr>fvalue = None, fdefault = True\<rparr>, \<lparr>fvalue = Some 3, fdefault = True\<rparr>,
         \<lparr>fvalue = None, fdefault = True\<rparr>]\<rparr>"

definition demo_state2 :: state where
  "demo_state2 =
     \<lparr>heap = (\<lambda>a. if a = 0 then Some demo_kit2 else if a = 1 then Some demo_cube
                  else if a = 2 then Some ((fresh_node demo_world 2)\<lparr>nchildren := Some []\<rparr>)
                  else if a = 3 then Some demo_label
                  else if a = 4 then Some (fresh_node demo_world 9) else None),
      nextaddr = 5\<rparr>"

text \<open>The first store with one more node, a fresh transform at address 4, not yet a part.\<close>

definition demo_state3 :: state where
  "demo_state3 =
     \<lparr>heap = (\<lambda>a. if a = 0 then Some demo_kit else if a = 1 then Some demo_cube
                  else if a = 2 then Some demo_sep else if a = 3 then Some demo_label
                  else if a = 4 then Some (fresh_node demo_world 7) else None),
      nextaddr = 5\<rparr>"


text \<open>The example kit after its private part \<open>hidden\<close> has been built.\<close>

definition demo_hidden :: node where
  "demo_hidden = fresh_node demo_world 7"

definition demo_state4 :: state where
  "demo_state4 =
     \<lparr>heap = (heap demo_state)(0 \<mapsto> demo_kit\<lparr>nchildren := Some [2, 3, 4],
                ninstancelist := (ninstancelist demo_kit)[6 := \<lparr>fvalue = Some 4, fdefault = False\<rparr>]\<rparr>,
              4 \<mapsto> demo_hidden),
      nextaddr = 5\<rparr>"

text \<open>
  A store with one kit of class 11 (address 0) whose list part \<open>b\<close> (address 1) has the
  container at address 2 with one element, a kit of class 12 at address 3.
\<close>

definition demo_inner :: node where
  "demo_inner = (fresh_node demo_world 11)
     \<lparr>nchildren := Some [1],
      ninstancelist := [\<lparr>fvalue = None, fdefault = False\<rparr>, \<lparr>fvalue = Some 1, fdefault = False\<rparr>]\<rparr>"

definition demo_list :: node where
  "demo_list = (fresh_node demo_world 3)
     \<lparr>nchildren := Some [2], ncontainer := Some 2, nitemtypes := [12], nlocked := True\<rparr>"

definition demo_list_state :: state where
  "demo_list_state =
     \<lparr>heap = (\<lambda>a. if a = 0 then Some demo_inner else if a = 1 then Some demo_list
                  else if a = 2 then Some ((fresh_node demo_world 1)\<lparr>nchildren := Some [3]\<rparr>)
                  else if a = 3 then Some (fresh_node demo_world 12) else None),
      nextaddr = 4\<rparr>"

text \<open>
  The example kit after its shape and then its separator have been cleared, with a fresh
  separator at address 4 that is not yet a part: the only built part is the label.
\<close>

definition demo_kit8 :: node where
  "demo_kit8 = demo_kit
     \<lparr>nchildren := Some [3],
      ninstancelist := (ninstancelist demo_kit)
        [1 := \<lparr>fvalue = None, fdefault = False\<rparr>, 3 := \<lparr>fvalue = None, fdefault = False\<rparr>]\<rparr>"

definition demo_state8 :: state where
  "demo_state8 =
     \<lparr>heap = (\<lambda>a. if a = 0 then Some demo_kit8
                  else if a = 1 then Some demo_cube
                  else if a = 2 then Some ((fresh_node demo_world 2)\<lparr>nchildren := Some []\<rparr>)
                  else if a = 3 then Some demo_label
                  else if a = 4 then Some (fresh_node demo_world 2) else None),
      nextaddr = 5\<rparr>"
section \<open>Basic facts\<close>

lemma bnd_simps [simp]: "bnd (Inl e) f = Inl e" "bnd (Inr x) f = f x"
  by (simp_all add: bnd_def)

lemma cl_find_None [simp]: "cl_find cs None = - 1"
  by (simp add: cl_find_def)

lemma cl_find_mem [simp]: "a \<in> set cs \<Longrightarrow> cl_find cs (Some a) = int (first_index cs a)"
  by (simp add: cl_find_def)

lemma cl_find_notmem [simp]: "a \<notin> set cs \<Longrightarrow> cl_find cs (Some a) = - 1"
  by (simp add: cl_find_def)

lemma first_index_split:
  "a \<notin> set xs \<Longrightarrow> first_index (xs @ a # ys) a = length xs"
  by (induction xs) auto

lemma cl_remove_first:
  "a \<notin> set xs \<Longrightarrow> cl_remove (xs @ a # ys) (first_index (xs @ a # ys) a) = xs @ ys"
  by (simp add: first_index_split cl_remove_def)

lemma cl_insert_first:
  "a \<notin> set xs \<Longrightarrow> cl_insert (xs @ a # ys) b (first_index (xs @ a # ys) a) = xs @ b # a # ys"
  by (simp add: first_index_split cl_insert_def)

lemma cl_set_first:
  "a \<notin> set xs \<Longrightarrow> cl_set (xs @ a # ys) (first_index (xs @ a # ys) a) b = xs @ b # ys"
  by (simp add: first_index_split cl_set_def)

lemma children_of_set_children:
  "heap s p = Some pn \<Longrightarrow> children_of (set_children s p cs) p = Some cs"
  by (simp add: children_of_def set_children_def upd_def)

lemma children_of_set_slot [simp]:
  "children_of (set_slot s k i g) a = children_of s a"
  by (auto simp: children_of_def set_slot_def upd_def split: option.splits)

lemma slot_set_children [simp]:
  "slot (set_children s p cs) k i = slot s k i"
  by (auto simp: slot_def set_children_def upd_def split: option.splits)

lemma slot_set_slot_same:
  "slot s k i = Some f \<Longrightarrow> slot (set_slot s k i g) k i = Some (g f)"
  by (auto simp: slot_def set_slot_def upd_def split: option.splits if_splits)

text \<open>With the parent in place and the type test passed, \<open>setPart\<close> is its second half.\<close>

lemma setPart_to_splice:
  assumes "slot s kit p = Some f" and "part_parent s kit p = Some par"
    and "node = None \<or> (\<exists>a nd e k. node = Some a \<and> heap s a = Some nd \<and> heap s kit = Some k
           \<and> centry (ncatalog k) p = Some e \<and> derived w (ntype nd) (etype e))"
  shows "setPart (Suc n) w s kit p node = setPart_splice n s kit p node (Some par)"
  using assms
  by (auto simp: slot_def part_parent_def part_value_def Let_def
           split: option.splits if_splits)

lemmas demo_defs =
  demo_state_def demo_state2_def demo_state3_def demo_kit_def demo_kit2_def demo_cube_def demo_sep_def demo_label_def demo_world_def demo_catalog_def
  inner_catalog_def item_catalog_def ex_entry_def fresh_node_def createFieldList_def
  empty_state_def

section \<open>Type mismatch in setPart\<close>

text \<open>
  C1.  For a kit \<open>kit\<close> and a part number \<open>p\<close> of its catalog with declared type
  \<open>etype e\<close>: \<open>setPart\<close> called with a non-null node whose type is not derived from the
  declared type returns \<open>FALSE\<close>, and the store it returns is the store it was given, so the
  part field, its default flag and every child list are as before.
\<close>

theorem setPart_wrong_type:
  assumes "heap s kit = Some k" and "0 < p" and "p < int (length (ninstancelist k))"
    and "centry (ncatalog k) p = Some e"
    and "heap s a = Some nd" and "\<not> derived w (ntype nd) (etype e)"
  shows "setPart (Suc n) w s kit p (Some a) = Inr (s, False)"
  using assms by simp

theorem setPart_wrong_type_witness:
  "setPart (Suc 0) demo_world demo_state 0 3 (Some 2) = Inr (demo_state, False)"
  using setPart_wrong_type [of demo_state 0 demo_kit 3 "demo_catalog ! 3" 2 demo_sep demo_world 0]
  by (simp add: demo_defs centry_def)
section \<open>Evaluating the example\<close>

lemmas eval_defs =
  demo_defs centry_def slot_def upd_def Let_def parts_loop_def
  setDefault_def setValue_def getPartNumber_def isPublic_def isLeaf_def write_table_def
  createWriteData_def writedata_of_def writedata_write_def
  nullpart_step_def nonwriting_step_def parentwrite_step_def testParentWrite_def
  setDefaultOnNonWritingFields_def is_default_node_def num_children_def list_container_def
  policy_a_def policy_b_def policy_c_def policy_d_def spec_policy_d_def
  SoGroup_t_def SoSeparator_t_def SoNodeKitListPart_t_def SoBaseKit_t_def

lemmas build_defs =
  alloc_def set_slot_def setPart_splice_def getRightSiblingIndex_def cl_find_def
  set_children_def cl_append_def cl_set_def cl_remove_def cl_insert_def list_attach_def list_lock_def

lemmas eval2_defs = eval_defs build_defs part_value_def part_parent_def children_of_def
  part_in_place_def hierarchy_inv_def

text \<open>The two example stores are what the program builds.\<close>

lemma demo_state_built:
  "createInstance 10 demo_world empty_state 10 = Inr (demo_state, Some 0)"
  apply (simp add: eval_defs build_defs eval_nat_numeral upt_rec)
  apply (rule ext)
  apply (simp add: eval_defs)
  done

lemma demo_state2_built:
  "bnd (setPart 1 demo_world demo_state 0 3 None)
     (\<lambda>(s1, r1). bnd (createInstance 1 demo_world s1 9)
        (\<lambda>(s2, a). setPart 1 demo_world s2 0 1 a)) = Inr (demo_state2, True)"
  apply (simp add: eval_defs build_defs eval_nat_numeral)
  apply (rule ext)
  apply (simp add: eval_defs)
  done

section \<open>Frame properties of the builders\<close>

lemma frame_below_refl [simp]: "frame_below N s s"
  by (simp add: frame_below_def)

lemma frame_below_trans: "frame_below N s s1 \<Longrightarrow> frame_below N s1 s2 \<Longrightarrow> frame_below N s s2"
  by (simp add: frame_below_def)

lemma frame_below_mono: "frame_below M s s' \<Longrightarrow> N \<le> M \<Longrightarrow> frame_below N s s'"
  by (simp add: frame_below_def)

lemma frame_below_upd: "N \<le> a \<Longrightarrow> frame_below N s (upd s a g)"
  by (auto simp: frame_below_def upd_def split: option.splits)

lemma nextaddr_upd [simp]: "nextaddr (upd s a g) = nextaddr s"
  by (simp add: upd_def split: option.splits)

lemma nextaddr_set_slot [simp]: "nextaddr (set_slot s k i g) = nextaddr s"
  by (simp add: set_slot_def)

lemma nextaddr_set_children [simp]: "nextaddr (set_children s a cs) = nextaddr s"
  by (simp add: set_children_def)

lemma slots_ge_frame:
  "slots_ge N s kit \<Longrightarrow> heap s' kit = heap s kit \<Longrightarrow> slots_ge N s' kit"
  by (simp add: slots_ge_def)

lemma slots_ge_upd_other:
  "slots_ge N s kit \<Longrightarrow> (\<And>nd. ninstancelist (g nd) = ninstancelist nd) \<Longrightarrow> slots_ge N (upd s a g) kit"
  by (auto simp: slots_ge_def upd_def split: option.splits if_splits)

lemma slots_ge_set_slot_value:
  assumes "slots_ge N s kit" and "\<forall>a. node = Some a \<longrightarrow> N \<le> a"
  shows "slots_ge N (set_slot s kit p (\<lambda>g. setValue g node)) kit"
proof -
  { fix k f v
    assume k: "heap s kit = Some k"
      and f: "f \<in> set ((ninstancelist k)[nat p := setValue (ninstancelist k ! nat p) node])"
      and v: "fvalue f = Some v"
    from f have "f = setValue (ninstancelist k ! nat p) node \<or> f \<in> set (ninstancelist k)"
      using set_update_subset_insert by fastforce
    then have "N \<le> v"
      using assms k v by (auto simp: slots_ge_def setValue_def)
  }
  then show ?thesis
    by (auto simp: slots_ge_def set_slot_def upd_def split: option.splits if_splits)
qed

lemma in_set_update_cases:
  "f \<in> set (xs[i := x]) \<Longrightarrow> (i < length xs \<and> f = x) \<or> f \<in> set xs"
  by (cases "i < length xs") (auto simp: list_update_beyond dest: set_update_subset_insert[THEN subsetD])

lemma slots_ge_set_slot_default:
  assumes "slots_ge N s kit"
  shows "slots_ge N (set_slot s k2 p (\<lambda>g. setDefault g b)) kit"
proof -
  { fix k f v
    assume k: "heap s kit = Some k"
      and f: "f \<in> set ((ninstancelist k)[nat p := setDefault (ninstancelist k ! nat p) b])"
      and v: "fvalue f = Some v"
    from in_set_update_cases[OF f]
    consider (a) "nat p < length (ninstancelist k)" "f = setDefault (ninstancelist k ! nat p) b"
      | (b) "f \<in> set (ninstancelist k)" by blast
    then have "N \<le> v"
    proof cases
      case a
      then have "ninstancelist k ! nat p \<in> set (ninstancelist k)"
        "fvalue (ninstancelist k ! nat p) = Some v"
        using v by (simp_all add: setDefault_def)
      with assms k show ?thesis unfolding slots_ge_def by blast
    next
      case b
      with assms k v show ?thesis unfolding slots_ge_def by blast
    qed
  }
  then show ?thesis
    using assms
    by (auto simp: slots_ge_def set_slot_def upd_def split: option.splits if_splits)
qed

lemma bnd_Inr_elim:
  assumes "bnd m f = Inr y"
  obtains x where "m = Inr x" "f x = Inr y"
  using assms by (cases m) auto

lemma slots_ge_part_value:
  "slots_ge N s kit \<Longrightarrow> part_value s kit i = Some v \<Longrightarrow> N \<le> v"
  by (auto simp: slots_ge_def part_value_def slot_def split: option.splits if_splits)

lemma mfold_invariant:
  assumes "\<And>x s s'. f x s = Inr s' \<Longrightarrow> J s \<Longrightarrow> J s'"
  shows "mfold f xs s = Inr s' \<Longrightarrow> J s \<Longrightarrow> J s'"
proof (induction xs arbitrary: s)
  case Nil
  then show ?case by simp
next
  case (Cons x xs)
  from Cons.prems(1) obtain s1 where "f x s = Inr s1" "mfold f xs s1 = Inr s'"
    by (cases "f x s") auto
  with assms Cons show ?case by blast
qed

lemma setPart_Suc_elim:
  assumes "setPart (Suc n) w s kit p node = Inr (s', r)"
  obtains (mismatch) "s' = s" "r = False"
  | (splice) k e s1 par where "heap s kit = Some k" "0 < p" "p < int (length (ninstancelist k))"
      "centry (ncatalog k) p = Some e"
      "0 \<le> eparent e" "eparent e < int (length (ninstancelist k))"
      "(eparent e = 0 \<and> s1 = s \<and> par = kit) \<or>
       (eparent e \<noteq> 0 \<and> s1 = s \<and> part_value s kit (eparent e) = Some par) \<or>
       (eparent e \<noteq> 0 \<and> part_value s kit (eparent e) = None
          \<and> (\<exists>r'. makePart n w s kit (eparent e) = Inr (s1, r'))
          \<and> part_value s1 kit (eparent e) = Some par)"
      "setPart_splice n s1 kit p node (Some par) = Inr (s', r)"
proof -
  from assms obtain k where k: "heap s kit = Some k"
    by (cases "heap s kit") auto
  from assms k have p: "0 < p" "p < int (length (ninstancelist k))"
    by (auto split: if_splits)
  from assms k p obtain e where e: "centry (ncatalog k) p = Some e"
    by (cases "centry (ncatalog k) p") auto
  let ?ok = "(case node of None \<Rightarrow> Inr True
              | Some a \<Rightarrow> (case heap s a of None \<Rightarrow> Inl BadPointer
                           | Some nd \<Rightarrow> Inr (derived w (ntype nd) (etype e))))"
  from assms k p e obtain b where b: "?ok = Inr b"
    by (cases ?ok) auto
  show ?thesis
  proof (cases b)
    case False
    with assms k p e b have "s' = s" "r = False" by auto
    then show ?thesis by (rule mismatch)
  next
    case True
    with assms k p e b have rng: "0 \<le> eparent e" "eparent e < int (length (ninstancelist k))"
      by (auto simp: Let_def split: if_splits)
    let ?res = "(if eparent e = 0 then Inr (s, Some kit)
                 else (case fvalue (ninstancelist k ! nat (eparent e)) of
                         Some p \<Rightarrow> Inr (s, Some p)
                       | None \<Rightarrow> bnd (makePart n w s kit (eparent e))
                                   (\<lambda>(s1, r). Inr (s1, case slot s1 kit (eparent e) of None \<Rightarrow> None
                                                      | Some f \<Rightarrow> fvalue f))))"
    from assms k p e b True rng
    have eq: "bnd ?res (\<lambda>(s1, parent). setPart_splice n s1 kit p node parent) = Inr (s', r)"
      by (simp add: Let_def)
    then obtain s1 parent where res: "?res = Inr (s1, parent)"
      and spl: "setPart_splice n s1 kit p node parent = Inr (s', r)"
      by (cases ?res) auto
    from spl obtain par where par: "parent = Some par"
      by (cases parent) (auto simp: setPart_splice_def)
    have pv: "eparent e \<noteq> 0 \<Longrightarrow> part_value s kit (eparent e) = fvalue (ninstancelist k ! nat (eparent e))"
      using k rng by (simp add: part_value_def slot_def)
    have "(eparent e = 0 \<and> s1 = s \<and> par = kit) \<or>
       (eparent e \<noteq> 0 \<and> s1 = s \<and> part_value s kit (eparent e) = Some par) \<or>
       (eparent e \<noteq> 0 \<and> part_value s kit (eparent e) = None
          \<and> (\<exists>r'. makePart n w s kit (eparent e) = Inr (s1, r'))
          \<and> part_value s1 kit (eparent e) = Some par)"
    proof (cases "eparent e = 0")
      case True
      with res par show ?thesis by simp
    next
      case False
      show ?thesis
      proof (cases "fvalue (ninstancelist k ! nat (eparent e))")
        case (Some q)
        with res par False pv show ?thesis by simp
      next
        case None
        with res False obtain r' where "makePart n w s kit (eparent e) = Inr (s1, r')"
          "parent = part_value s1 kit (eparent e)"
          by (cases "makePart n w s kit (eparent e)") (auto simp: part_value_def)
        with None False pv par show ?thesis by auto
      qed
    qed
    with k p e rng spl par show ?thesis by (intro splice) auto
  qed
qed

lemma splice_frame:
  assumes "setPart_splice n s1 kit p node (Some par) = Inr (s', r)"
    and "N \<le> par" and "N \<le> kit" and "slots_ge N s1 kit" and "\<forall>a. node = Some a \<longrightarrow> N \<le> a"
  shows "frame_below N s1 s' \<and> nextaddr s' = nextaddr s1 \<and> slots_ge N s' kit"
proof -
  from assms(1) have
    "s' = s1 \<or> s' = set_slot s1 kit p (\<lambda>g. setValue g node)
     \<or> (\<exists>cs'. s' = set_slot (set_children s1 par cs') kit p (\<lambda>g. setValue g node))"
    by (auto simp: setPart_splice_def Let_def split: option.splits if_splits
             elim!: bnd_Inr_elim)
  moreover have "\<And>cs'. slots_ge N (set_children s1 par cs') kit"
    unfolding set_children_def using assms(4) by (rule slots_ge_upd_other) simp
  moreover have "\<And>cs'. frame_below N s1 (set_children s1 par cs')"
    unfolding set_children_def using assms(2) by (rule frame_below_upd)
  moreover have "\<And>s2. frame_below N s2 (set_slot s2 kit p (\<lambda>g. setValue g node))"
    unfolding set_slot_def using assms(3) by (rule frame_below_upd)
  ultimately show ?thesis
    using assms(4,5)
    by (auto intro: slots_ge_set_slot_value frame_below_trans)
qed

lemma makePart_Suc_elim:
  assumes "makePart (Suc n) w s kit p = Inr (s', r)"
  obtains k e s1 node s2 where "heap s kit = Some k" "0 < p" "p < int (length (ninstancelist k))"
      "centry (ncatalog k) p = Some e" "part_value s kit p = None"
      "createInstance n w s (edefaulttype e) = Inr (s1, node)"
      "(\<not> elist e \<and> s2 = s1) \<or>
       (elist e \<and> (\<exists>l. node = Some l \<and>
          ((econtainertype e = SoGroup_t \<and> s2 = list_lock s1 l (eitemtypes e)) \<or>
           (econtainertype e \<noteq> SoGroup_t \<and>
              (\<exists>s1' c. createInstance n w s1 (econtainertype e) = Inr (s1', Some c)
                  \<and> s2 = list_lock (list_attach s1' l c) l (eitemtypes e))))))"
      "setPart n w s2 kit p node = Inr (s', r)"
proof -
  from assms obtain k where k: "heap s kit = Some k"
    by (cases "heap s kit") auto
  from assms k have p: "0 < p" "p < int (length (ninstancelist k))"
    by (auto split: if_splits)
  from assms k p obtain e where e: "centry (ncatalog k) p = Some e"
    by (cases "centry (ncatalog k) p") auto
  from assms k p e have v: "fvalue (ninstancelist k ! nat p) = None"
    by (auto split: if_splits)
  then have pv: "part_value s kit p = None"
    using k p by (simp add: part_value_def slot_def)
  from assms k p e v obtain s1 node where ci: "createInstance n w s (edefaulttype e) = Inr (s1, node)"
    by (cases "createInstance n w s (edefaulttype e)") auto
  show ?thesis
  proof (cases "elist e")
    case False
    with assms k p e v ci have "setPart n w s1 kit p node = Inr (s', r)" by simp
    with k p e pv ci False show ?thesis by (intro that[of k e s1 node s1]) auto
  next
    case True
    with assms k p e v ci obtain l where l: "node = Some l"
      by (cases node) auto
    show ?thesis
    proof (cases "econtainertype e = SoGroup_t")
      case g: True
      with assms k p e v ci True l
      have "setPart n w (list_lock s1 l (eitemtypes e)) kit p node = Inr (s', r)" by simp
      with k p e pv ci True l g show ?thesis
        by (intro that[of k e s1 node "list_lock s1 l (eitemtypes e)"]) auto
    next
      case g: False
      with assms k p e v ci True l obtain s1' c where
        c: "createInstance n w s1 (econtainertype e) = Inr (s1', c)"
        by (cases "createInstance n w s1 (econtainertype e)") auto
      with assms k p e v ci True l g obtain c' where c': "c = Some c'"
        by (cases c) auto
      with assms k p e v ci True l g c
      have "setPart n w (list_lock (list_attach s1' l c') l (eitemtypes e)) kit p node = Inr (s', r)"
        by simp
      with k p e pv ci True l g c c' show ?thesis
        by (intro that[of k e s1 node "list_lock (list_attach s1' l c') l (eitemtypes e)"]) auto
    qed
  qed
qed

lemma createInstance_Suc_eq:
  "createInstance (Suc n) w s t =
     (if \<not> cancreate w t then Inr (s, None)
      else
        let (s1, a) = alloc s (fresh_node w t) in
        if derived w t SoBaseKit_t then
          bnd (mfold (createDefaultParts_step n w a (classcatalog w t))
                 (map int [1 ..< length (classcatalog w t)]) s1)
            (\<lambda>s2. Inr (s2, Some a))
        else if derived w t SoNodeKitListPart_t then
          let (s2, c) = alloc s1 (fresh_node w SoGroup_t) in
          Inr (list_attach s2 a c, Some a)
        else Inr (s1, Some a))"
  unfolding createDefaultParts_step_def by simp

lemma frame_below_heap: "frame_below N s s' \<Longrightarrow> a < N \<Longrightarrow> heap s' a = heap s a"
  by (simp add: frame_below_def)

lemma frame_sp_step:
  assumes "frame_mk n"
  shows "frame_sp (Suc n)"
  unfolding frame_sp_def
proof (intro allI impI)
  fix w s kit p node s' r N
  assume sp: "setPart (Suc n) w s kit p node = Inr (s', r)"
    and N: "N \<le> kit" "kit < nextaddr s" "slots_ge N s kit" "\<forall>a. node = Some a \<longrightarrow> N \<le> a"
  from sp show "frame_below N s s' \<and> nextaddr s \<le> nextaddr s' \<and> slots_ge N s' kit"
  proof (cases rule: setPart_Suc_elim)
    case mismatch
    with N show ?thesis by simp
  next
    case (splice k e s1 par)
    have mid: "frame_below N s s1 \<and> nextaddr s \<le> nextaddr s1 \<and> slots_ge N s1 kit \<and> N \<le> par"
      using splice(7)
    proof (elim disjE conjE exE)
      assume "eparent e = 0" "s1 = s" "par = kit"
      with N show ?thesis by simp
    next
      assume "s1 = s" "part_value s kit (eparent e) = Some par"
      with N slots_ge_part_value show ?thesis by auto
    next
      fix r'
      assume mk: "makePart n w s kit (eparent e) = Inr (s1, r')"
        and pv: "part_value s1 kit (eparent e) = Some par"
      from assms mk N(1-3)
      have "frame_below N s s1 \<and> nextaddr s \<le> nextaddr s1 \<and> slots_ge N s1 kit"
        unfolding frame_mk_def by blast
      with pv slots_ge_part_value show ?thesis by auto
    qed
    from splice_frame[OF splice(8)] mid N(1,4)
    have "frame_below N s1 s' \<and> nextaddr s' = nextaddr s1 \<and> slots_ge N s' kit" by blast
    with mid show ?thesis by (auto intro: frame_below_trans)
  qed
qed

lemma list_lock_frame: "N \<le> l \<Longrightarrow> frame_below N s (list_lock s l ts)"
  unfolding list_lock_def by (rule frame_below_upd)

lemma list_attach_frame: "N \<le> l \<Longrightarrow> frame_below N s (list_attach s l c)"
  unfolding list_attach_def by (rule frame_below_upd)

lemma nextaddr_list_lock [simp]: "nextaddr (list_lock s l ts) = nextaddr s"
  by (simp add: list_lock_def)

lemma nextaddr_list_attach [simp]: "nextaddr (list_attach s l c) = nextaddr s"
  by (simp add: list_attach_def)

lemma slots_ge_list_lock: "slots_ge N s kit \<Longrightarrow> slots_ge N (list_lock s l ts) kit"
  unfolding list_lock_def by (rule slots_ge_upd_other) simp_all

lemma slots_ge_list_attach: "slots_ge N s kit \<Longrightarrow> slots_ge N (list_attach s l c) kit"
  unfolding list_attach_def by (rule slots_ge_upd_other) simp_all

lemma frame_mk_step:
  assumes "frame_ci n" and "frame_sp n"
  shows "frame_mk (Suc n)"
  unfolding frame_mk_def
proof (intro allI impI)
  fix w s kit p s' r N
  assume mk: "makePart (Suc n) w s kit p = Inr (s', r)"
    and N: "N \<le> kit" "kit < nextaddr s" "slots_ge N s kit"
  from mk show "frame_below N s s' \<and> nextaddr s \<le> nextaddr s' \<and> slots_ge N s' kit"
  proof (cases rule: makePart_Suc_elim)
    case (1 k e s1 node s2)
    from assms(1) 1(6)
    have c1: "frame_below (nextaddr s) s s1" "nextaddr s \<le> nextaddr s1"
      "\<And>a. node = Some a \<Longrightarrow> nextaddr s \<le> a \<and> a < nextaddr s1"
      unfolding frame_ci_def by blast+
    have f1: "frame_below N s s1" using c1(1) N by (auto intro: frame_below_mono)
    have k1: "heap s1 kit = heap s kit" using c1(1) N(2) by (rule frame_below_heap)
    have g1: "slots_ge N s1 kit" using N(3) k1 by (rule slots_ge_frame)
    have nodeN: "\<forall>a. node = Some a \<longrightarrow> N \<le> a" using c1(3) N by force
    have mid: "frame_below N s s2 \<and> nextaddr s \<le> nextaddr s2 \<and> slots_ge N s2 kit"
      using 1(7)
    proof (elim disjE conjE exE)
      assume "s2 = s1"
      with f1 c1(2) g1 show ?thesis by simp
    next
      fix l assume l: "node = Some l" and s2: "s2 = list_lock s1 l (eitemtypes e)"
      from nodeN l have "N \<le> l" by simp
      from list_lock_frame[OF this] f1 have "frame_below N s s2"
        unfolding s2 by (auto intro: frame_below_trans)
      with c1(2) g1 s2 show ?thesis by (simp add: slots_ge_list_lock)
    next
      fix l s1' c assume l: "node = Some l"
        and ci2: "createInstance n w s1 (econtainertype e) = Inr (s1', Some c)"
        and s2: "s2 = list_lock (list_attach s1' l c) l (eitemtypes e)"
      from nodeN l have lN: "N \<le> l" by simp
      from assms(1) ci2 have c2: "frame_below (nextaddr s1) s1 s1'" "nextaddr s1 \<le> nextaddr s1'"
        unfolding frame_ci_def by blast+
      have "frame_below N s1 s1'" using c2(1) c1(2) N by (auto intro: frame_below_mono)
      with f1 have f2: "frame_below N s s1'" by (rule frame_below_trans)
      have "heap s1' kit = heap s1 kit" using c2(1) N(2) c1(2) by (auto intro: frame_below_heap)
      with g1 have g2: "slots_ge N s1' kit" by (rule slots_ge_frame)
      have "frame_below N s1' s2" unfolding s2
        using list_lock_frame[OF lN] list_attach_frame[OF lN] by (blast intro: frame_below_trans)
      with f2 have "frame_below N s s2" by (rule frame_below_trans)
      moreover have "slots_ge N s2 kit" unfolding s2
        using g2 by (intro slots_ge_list_lock slots_ge_list_attach)
      moreover have "nextaddr s \<le> nextaddr s2" using c1(2) c2(2) s2 by simp
      ultimately show ?thesis by simp
    qed
    then have "kit < nextaddr s2" using N(2) by simp
    with assms(2) 1(8) N(1) mid nodeN
    have "frame_below N s2 s' \<and> nextaddr s2 \<le> nextaddr s' \<and> slots_ge N s' kit"
      unfolding frame_sp_def by blast
    with mid show ?thesis by (auto intro: frame_below_trans)
  qed
qed

lemma slots_ge_fresh: "slots_ge N (fst (alloc s (fresh_node w t))) (nextaddr s)"
  by (auto simp: slots_ge_def alloc_def fresh_node_def createFieldList_def)

lemma alloc_frame: "frame_below (nextaddr s) s (fst (alloc s nd))"
  by (simp add: frame_below_def alloc_def)

lemma alloc_next [simp]: "nextaddr (fst (alloc s nd)) = Suc (nextaddr s)" "snd (alloc s nd) = nextaddr s"
  by (simp_all add: alloc_def)

lemma frame_ci_step:
  assumes "frame_mk n"
  shows "frame_ci (Suc n)"
  unfolding frame_ci_def
proof (intro allI impI)
  fix w s t s' r
  assume ci: "createInstance (Suc n) w s t = Inr (s', r)"
  let ?a = "nextaddr s"
  let ?s1 = "fst (alloc s (fresh_node w t))"
  let ?goal = "frame_below ?a s s' \<and> ?a \<le> nextaddr s'
                 \<and> (\<forall>a. r = Some a \<longrightarrow> ?a \<le> a \<and> a < nextaddr s')"
  let ?s2 = "fst (alloc ?s1 (fresh_node w SoGroup_t))"
  have ci': "(if \<not> cancreate w t then Inr (s, None)
              else if derived w t SoBaseKit_t then
                bnd (mfold (createDefaultParts_step n w ?a (classcatalog w t))
                       (map int [1 ..< length (classcatalog w t)]) ?s1)
                  (\<lambda>s2. Inr (s2, Some ?a))
              else if derived w t SoNodeKitListPart_t then
                Inr (list_attach ?s2 ?a (Suc ?a), Some ?a)
              else Inr (?s1, Some ?a)) = Inr (s', r)"
    using ci by (simp only: createInstance_Suc_eq Let_def split_def alloc_next)
  show ?goal
  proof (cases "cancreate w t")
    case False
    with ci' show ?thesis by simp
  next
    case True
    show ?thesis
    proof (cases "derived w t SoBaseKit_t")
      case kit: True
      let ?J = "\<lambda>s2. frame_below ?a s s2 \<and> ?a < nextaddr s2 \<and> slots_ge ?a s2 ?a"
      from ci' True kit obtain s2 where
        loop: "mfold (createDefaultParts_step n w ?a (classcatalog w t))
                 (map int [1 ..< length (classcatalog w t)]) ?s1 = Inr s2"
        and res: "s' = s2" "r = Some ?a"
        by (auto elim!: bnd_Inr_elim)
      have step: "\<And>i sa sb. createDefaultParts_step n w ?a (classcatalog w t) i sa = Inr sb
                     \<Longrightarrow> ?J sa \<Longrightarrow> ?J sb"
      proof -
        fix i sa sb
        assume st: "createDefaultParts_step n w ?a (classcatalog w t) i sa = Inr sb" and J: "?J sa"
        from st have "sb = sa \<or> (\<exists>s3 r3. makePart n w sa ?a i = Inr (s3, r3)
                                   \<and> sb = set_slot s3 ?a i (\<lambda>g. setDefault g True))"
          by (auto simp: createDefaultParts_step_def split: option.splits if_splits
                   elim!: bnd_Inr_elim)
        then show "?J sb"
        proof (elim disjE exE conjE)
          assume "sb = sa" with J show ?thesis by simp
        next
          fix s3 r3
          assume mk: "makePart n w sa ?a i = Inr (s3, r3)"
            and sb: "sb = set_slot s3 ?a i (\<lambda>g. setDefault g True)"
          from assms mk J
          have m: "frame_below ?a sa s3" "nextaddr sa \<le> nextaddr s3" "slots_ge ?a s3 ?a"
            unfolding frame_mk_def by blast+
          have "frame_below ?a s3 sb" unfolding sb set_slot_def by (rule frame_below_upd) simp
          with m(1) J have "frame_below ?a s sb" by (blast intro: frame_below_trans)
          moreover have "slots_ge ?a sb ?a" unfolding sb using m(3) by (rule slots_ge_set_slot_default)
          moreover have "?a < nextaddr sb" using J m(2) sb by simp
          ultimately show ?thesis by simp
        qed
      qed
      have J1: "?J ?s1" using alloc_frame slots_ge_fresh by simp
      have "?J s2"
        by (rule mfold_invariant[where J = ?J, OF _ loop J1]) (erule (1) step)
      with res show ?thesis by simp
    next
      case nokit: False
      show ?thesis
      proof (cases "derived w t SoNodeKitListPart_t")
        case True
        from ci' \<open>cancreate w t\<close> nokit True
        have res: "s' = list_attach ?s2 ?a (Suc ?a)" "r = Some ?a"
          by auto
        have "frame_below ?a s ?s1" by (rule alloc_frame)
        moreover have "frame_below ?a ?s1 ?s2"
          using alloc_frame[of ?s1] by (rule frame_below_mono) simp
        moreover have "frame_below ?a ?s2 s'" unfolding res by (rule list_attach_frame) simp
        ultimately have "frame_below ?a s s'" by (blast intro: frame_below_trans)
        with res show ?thesis by simp
      next
        case False
        with ci' \<open>cancreate w t\<close> nokit have "s' = ?s1" "r = Some ?a"
          by auto
        with alloc_frame[of s] show ?thesis by simp
      qed
    qed
  qed
qed

lemma frame_all: "frame_ci n \<and> frame_mk n \<and> frame_sp n"
proof (induction n)
  case 0
  show ?case by (simp add: frame_ci_def frame_mk_def frame_sp_def)
next
  case (Suc n)
  then show ?case
    using frame_ci_step frame_mk_step frame_sp_step by blast
qed

lemma createInstance_frame:
  assumes "createInstance n w s t = Inr (s', r)"
  shows "frame_below (nextaddr s) s s'" and "nextaddr s \<le> nextaddr s'"
    and "\<And>a. r = Some a \<Longrightarrow> nextaddr s \<le> a \<and> a < nextaddr s'"
  using frame_all[of n] assms unfolding frame_ci_def by blast+

lemma evolves_trans: "evolves s1 s2 \<Longrightarrow> evolves s s1 \<Longrightarrow> evolves s s2"
  by (induction rule: evolves.induct) (auto intro: evolves.intros)

lemma keeps_shape_refl [simp]: "keeps_shape nd nd"
  by (simp add: keeps_shape_def)

lemma keeps_shape_trans: "keeps_shape a b \<Longrightarrow> keeps_shape b c \<Longrightarrow> keeps_shape a c"
  by (simp add: keeps_shape_def)

lemma evolves_shape:
  "evolves s s' \<Longrightarrow>
     nextaddr s \<le> nextaddr s' \<and>
     (\<forall>a nd. a < nextaddr s \<longrightarrow> heap s a = Some nd \<longrightarrow>
        (\<exists>nd'. heap s' a = Some nd' \<and> keeps_shape nd nd'))"
proof (induction rule: evolves.induct)
  case (ev_refl s)
  then show ?case by simp
next
  case (ev_alloc s s1 nd)
  then show ?case by (auto simp: alloc_def)
next
  case (ev_upd s s1 g a)
  then show ?case
    by (auto simp: upd_def split: option.splits intro: keeps_shape_trans) (metis keeps_shape_trans option.inject)
qed

lemma evolves_set_slot: "evolves s s1 \<Longrightarrow> evolves s (set_slot s1 k i g)"
  unfolding set_slot_def by (rule ev_upd) (simp_all add: keeps_shape_def)

lemma evolves_set_children: "evolves s s1 \<Longrightarrow> evolves s (set_children s1 k cs)"
  unfolding set_children_def by (rule ev_upd) (simp_all add: keeps_shape_def)

lemma evolves_list_attach: "evolves s s1 \<Longrightarrow> evolves s (list_attach s1 l c)"
  unfolding list_attach_def by (rule ev_upd) (simp_all add: keeps_shape_def)

lemma evolves_list_lock: "evolves s s1 \<Longrightarrow> evolves s (list_lock s1 l ts)"
  unfolding list_lock_def by (rule ev_upd) (simp_all add: keeps_shape_def)

lemma splice_evolves:
  assumes "setPart_splice n s1 kit p node (Some par) = Inr (s', r)"
  shows "evolves s1 s'"
proof -
  from assms have
    "s' = s1 \<or> s' = set_slot s1 kit p (\<lambda>g. setValue g node)
     \<or> (\<exists>cs'. s' = set_slot (set_children s1 par cs') kit p (\<lambda>g. setValue g node))"
    by (auto simp: setPart_splice_def Let_def split: option.splits if_splits
             elim!: bnd_Inr_elim)
  then show ?thesis
    by (auto intro: evolves_set_slot evolves_set_children ev_refl)
qed

lemma ev_sp_step:
  assumes "ev_mk n"
  shows "ev_sp (Suc n)"
  unfolding ev_sp_def
proof (intro allI impI)
  fix w s kit p node s' r
  assume sp: "setPart (Suc n) w s kit p node = Inr (s', r)"
  from sp show "evolves s s'"
  proof (cases rule: setPart_Suc_elim)
    case mismatch
    then show ?thesis by (simp add: ev_refl)
  next
    case (splice k e s1 par)
    have mk: "\<And>w s kit p s' r. makePart n w s kit p = Inr (s', r) \<Longrightarrow> evolves s s'"
      using assms unfolding ev_mk_def by blast
    from splice(7) have "evolves s s1"
      by (auto intro: ev_refl mk)
    with splice_evolves[OF splice(8)] show ?thesis by (rule evolves_trans)
  qed
qed

lemma ev_mk_step:
  assumes "ev_ci n" and "ev_sp n"
  shows "ev_mk (Suc n)"
  unfolding ev_mk_def
proof (intro allI impI)
  fix w s kit p s' r
  assume mk: "makePart (Suc n) w s kit p = Inr (s', r)"
  from mk show "evolves s s'"
  proof (cases rule: makePart_Suc_elim)
    case (1 k e s1 node s2)
    have ci: "\<And>w s t s' r. createInstance n w s t = Inr (s', r) \<Longrightarrow> evolves s s'"
      using assms(1) unfolding ev_ci_def by blast
    from 1(6) have a: "evolves s s1" by (rule ci)
    have b: "evolves s s2"
      using 1(7)
    proof (elim disjE conjE exE)
      assume "s2 = s1" with a show ?thesis by simp
    next
      fix l assume "s2 = list_lock s1 l (eitemtypes e)"
      with a show ?thesis by (simp add: evolves_list_lock)
    next
      fix l s1' c
      assume c: "createInstance n w s1 (econtainertype e) = Inr (s1', Some c)"
        and s2: "s2 = list_lock (list_attach s1' l c) l (eitemtypes e)"
      from ci[OF c] a have "evolves s s1'" by (rule evolves_trans)
      then show ?thesis unfolding s2 by (intro evolves_list_lock evolves_list_attach)
    qed
    from assms(2) 1(8) have "evolves s2 s'" unfolding ev_sp_def by blast
    then show ?thesis using b by (rule evolves_trans)
  qed
qed

lemma ev_ci_step:
  assumes "ev_mk n"
  shows "ev_ci (Suc n)"
  unfolding ev_ci_def
proof (intro allI impI)
  fix w s t s' r
  assume ci: "createInstance (Suc n) w s t = Inr (s', r)"
  let ?a = "nextaddr s"
  let ?s1 = "fst (alloc s (fresh_node w t))"
  let ?s2 = "fst (alloc ?s1 (fresh_node w SoGroup_t))"
  have ci': "(if \<not> cancreate w t then Inr (s, None)
              else if derived w t SoBaseKit_t then
                bnd (mfold (createDefaultParts_step n w ?a (classcatalog w t))
                       (map int [1 ..< length (classcatalog w t)]) ?s1)
                  (\<lambda>s2. Inr (s2, Some ?a))
              else if derived w t SoNodeKitListPart_t then
                Inr (list_attach ?s2 ?a (Suc ?a), Some ?a)
              else Inr (?s1, Some ?a)) = Inr (s', r)"
    using ci by (simp only: createInstance_Suc_eq Let_def split_def alloc_next)
  have e1: "evolves s ?s1" by (intro ev_alloc ev_refl)
  have e2: "evolves s ?s2" by (intro ev_alloc ev_refl)
  show "evolves s s'"
  proof (cases "cancreate w t \<and> derived w t SoBaseKit_t")
    case True
    with ci' obtain s2 where
      loop: "mfold (createDefaultParts_step n w ?a (classcatalog w t))
               (map int [1 ..< length (classcatalog w t)]) ?s1 = Inr s2"
      and res: "s' = s2"
      by (auto elim!: bnd_Inr_elim)
    have step: "\<And>i sa sb. createDefaultParts_step n w ?a (classcatalog w t) i sa = Inr sb
                   \<Longrightarrow> evolves s sa \<Longrightarrow> evolves s sb"
    proof -
      fix i sa sb
      assume st: "createDefaultParts_step n w ?a (classcatalog w t) i sa = Inr sb"
        and J: "evolves s sa"
      from st have "sb = sa \<or> (\<exists>s3 r3. makePart n w sa ?a i = Inr (s3, r3)
                                 \<and> sb = set_slot s3 ?a i (\<lambda>g. setDefault g True))"
        by (auto simp: createDefaultParts_step_def split: option.splits if_splits
                 elim!: bnd_Inr_elim)
      then show "evolves s sb"
      proof (elim disjE exE conjE)
        assume "sb = sa" with J show ?thesis by simp
      next
        fix s3 r3
        assume mk: "makePart n w sa ?a i = Inr (s3, r3)"
          and sb: "sb = set_slot s3 ?a i (\<lambda>g. setDefault g True)"
        from assms mk have "evolves sa s3" unfolding ev_mk_def by blast
        from this J have "evolves s s3" by (rule evolves_trans)
        then show ?thesis unfolding sb by (rule evolves_set_slot)
      qed
    qed
    have "evolves s s2"
      by (rule mfold_invariant[where J = "evolves s", OF _ loop e1]) (erule (1) step)
    with res show ?thesis by simp
  next
    case False
    with ci' e1 e2 show ?thesis
      by (auto split: if_splits intro: ev_refl evolves_list_attach)
  qed
qed

lemma ev_all: "ev_ci n \<and> ev_mk n \<and> ev_sp n"
proof (induction n)
  case 0
  show ?case by (simp add: ev_ci_def ev_mk_def ev_sp_def)
next
  case (Suc n)
  then show ?case
    using ev_ci_step ev_mk_step ev_sp_step by blast
qed

lemma createInstance_evolves: "createInstance n w s t = Inr (s', r) \<Longrightarrow> evolves s s'"
  using ev_all[of n] unfolding ev_ci_def by blast

lemma makePart_evolves: "makePart n w s kit p = Inr (s', r) \<Longrightarrow> evolves s s'"
  using ev_all[of n] unfolding ev_mk_def by blast

lemma setPart_evolves: "setPart n w s kit p node = Inr (s', r) \<Longrightarrow> evolves s s'"
  using ev_all[of n] unfolding ev_sp_def by blast


section \<open>What the resolution of a part name changes\<close>

lemma first_found_invariant:
  assumes "\<And>i s s' r. f i s = Inr (s', r) \<Longrightarrow> J s \<Longrightarrow> J s'"
  shows "first_found f is s = Inr (s', r) \<Longrightarrow> J s \<Longrightarrow> J s'"
proof (induction "is" arbitrary: s)
  case Nil
  then show ?case by simp
next
  case (Cons i "is")
  from Cons.prems(1) obtain s1 r1 where f: "f i s = Inr (s1, r1)"
    and rest: "(case r1 of Some x \<Rightarrow> Inr (s1, Some x) | None \<Rightarrow> first_found f is s1) = Inr (s', r)"
    by (auto elim!: bnd_Inr_elim)
  from assms[OF f Cons.prems(2)] have J1: "J s1" .
  show ?case
  proof (cases r1)
    case None
    with rest Cons.IH J1 show ?thesis by simp
  next
    case (Some x)
    with rest J1 show ?thesis by simp
  qed
qed

lemma list_addChild_evolves: "list_addChild s l c = Inr s' \<Longrightarrow> evolves s s'"
  by (auto simp: list_addChild_def split: option.splits intro: evolves_set_children ev_refl)

lemma createAndAddDefaultChild_evolves:
  assumes "createAndAddDefaultChild n w s l = Inr (s', r)"
  shows "evolves s s'"
  using assms
  apply (auto simp: createAndAddDefaultChild_def split: option.splits elim!: bnd_Inr_elim
           dest!: createInstance_evolves list_addChild_evolves intro: ev_refl)
  apply (blast intro: evolves_trans)+
  done

lemma leafkit_probe_evolves:
  assumes "\<And>s1 k1 s2 r. search s1 k1 = Inr (s2, r) \<Longrightarrow> evolves s1 s2"
    and "leafkit_probe n w search cat kit i sa = Inr (sb, r)"
  shows "evolves sa sb"
  using assms(2)
  apply (auto simp: leafkit_probe_def Let_def split: option.splits if_splits elim!: bnd_Inr_elim
           dest!: assms(1) makePart_evolves setPart_evolves intro: ev_refl)
  apply (blast intro: evolves_trans)+
  done

lemma findPart_descend_evolves:
  assumes "findPart_descend n w s1 kit partnum islist listidx mk = Inr (s2, nxt)"
  shows "evolves s1 s2"
proof -
  from assms have "s2 = s1 \<or> (\<exists>node c. createAndAddDefaultChild n w s1 node = Inr (s2, c))"
    by (auto simp: findPart_descend_def split: option.splits if_splits elim!: bnd_Inr_elim)
  then show ?thesis by (auto intro: ev_refl createAndAddDefaultChild_evolves)
qed

lemma findPart_evolves:
  "findPart n w s kit name mk rs = Inr (s', res) \<Longrightarrow> evolves s s'"
proof (induction n arbitrary: s kit name s' res)
  case 0
  then show ?case by simp
next
  case (Suc n)
  have IH: "\<And>s kit name s' res. findPart n w s kit name mk rs = Inr (s', res) \<Longrightarrow> evolves s s'"
    by (rule Suc.IH)
  show ?case
  proof (cases "name = ''this''")
    case True
    with Suc.prems show ?thesis by (simp add: ev_refl)
  next
    case False
    show ?thesis
    proof (cases "first_segment name")
      case None
      with Suc.prems False show ?thesis by (simp add: ev_refl)
    next
      case (Some seg)
      obtain firstpartname islist listidx periodptr where
        seg: "seg = (firstpartname, islist, listidx, periodptr)" by (cases seg) auto
      from Suc.prems False Some seg obtain k where k: "heap s kit = Some k"
        by (cases "heap s kit") auto
      let ?partnum = "getPartNumber (ncatalog k) firstpartname"
      show ?thesis
      proof (cases "?partnum = - 1")
        case True
        show ?thesis
        proof (cases rs)
          case False
          with Suc.prems \<open>name \<noteq> ''this''\<close> Some seg k True show ?thesis by (simp add: ev_refl)
        next
          case rs: True
          let ?probe = "leafkit_probe n w (\<lambda>s1 subkit. findPart n w s1 subkit name mk rs) (ncatalog k) kit"
          from Suc.prems \<open>name \<noteq> ''this''\<close> Some seg k True rs
          have ff: "first_found ?probe [1 ..< length (ninstancelist k)] s = Inr (s', res)"
            by simp
          have step: "\<And>i sa sb r. ?probe i sa = Inr (sb, r) \<Longrightarrow> evolves s sa \<Longrightarrow> evolves s sb"
          proof -
            fix i sa sb r
            assume p: "?probe i sa = Inr (sb, r)" and J: "evolves s sa"
            have "evolves sa sb" by (rule leafkit_probe_evolves[OF _ p]) (rule IH)
            from this J show "evolves s sb" by (rule evolves_trans)
          qed
          show ?thesis
            by (rule first_found_invariant[where J = "evolves s", OF _ ff ev_refl]) (erule (1) step)
        qed
      next
        case False
        let ?mk = "(if mk \<and> fvalue (ninstancelist k ! nat ?partnum) = None
                    then bnd (makePart n w s kit ?partnum) (\<lambda>(s1, r). Inr s1) else Inr s)"
        from Suc.prems \<open>name \<noteq> ''this''\<close> Some seg k False
        obtain s1 where s1: "?mk = Inr s1"
          and rest: "(case periodptr of
                        None \<Rightarrow> Inr (s1, Some (kit, ?partnum, islist, listidx))
                      | Some pp \<Rightarrow>
                          bnd (findPart_descend n w s1 kit ?partnum islist listidx mk)
                            (\<lambda>(s2, next).
                               case next of None \<Rightarrow> Inr (s2, None)
                               | Some kit' \<Rightarrow> findPart n w s2 kit' (drop (Suc pp) name) mk rs))
                     = Inr (s', res)"
          by (auto simp: Let_def split: if_splits elim!: bnd_Inr_elim)
        from s1 have e1: "evolves s s1"
          by (auto split: if_splits elim!: bnd_Inr_elim intro: ev_refl makePart_evolves)
        show ?thesis
        proof (cases periodptr)
          case None
          with rest e1 show ?thesis by simp
        next
          case (Some pp)
          with rest obtain s2 nxt where d: "findPart_descend n w s1 kit ?partnum islist listidx mk = Inr (s2, nxt)"
            and r2: "(case nxt of None \<Rightarrow> Inr (s2, None)
                      | Some kit' \<Rightarrow> findPart n w s2 kit' (drop (Suc pp) name) mk rs) = Inr (s', res)"
            by (auto elim!: bnd_Inr_elim)
          from findPart_descend_evolves[OF d] e1 have e2: "evolves s s2" by (rule evolves_trans)
          show ?thesis
          proof (cases nxt)
            case None
            with r2 e2 show ?thesis by simp
          next
            case (Some kit')
            with r2 have "findPart n w s2 kit' (drop (Suc pp) name) mk rs = Inr (s', res)" by simp
            from IH[OF this] e2 show ?thesis by (rule evolves_trans)
          qed
        qed
      qed
    qed
  qed
qed

lemma part_value_upd_other:
  "(\<And>nd. ninstancelist (g nd) = ninstancelist nd) \<Longrightarrow> part_value (upd s a g) kit i = part_value s kit i"
  by (auto simp: part_value_def slot_def upd_def split: option.splits)

lemma part_value_set_children [simp]: "part_value (set_children s a cs) kit i = part_value s kit i"
  unfolding set_children_def by (rule part_value_upd_other) simp

lemma part_value_list_attach [simp]: "part_value (list_attach s l c) kit i = part_value s kit i"
  unfolding list_attach_def by (rule part_value_upd_other) simp

lemma part_value_list_lock [simp]: "part_value (list_lock s l ts) kit i = part_value s kit i"
  unfolding list_lock_def by (rule part_value_upd_other) simp

lemma part_value_set_slot:
  "part_value (set_slot s kit p (\<lambda>g. setValue g node)) k2 i =
     (if k2 = kit \<and> i = p \<and> slot s kit p \<noteq> None then node else part_value s k2 i)"
  by (auto simp: part_value_def slot_def set_slot_def upd_def setValue_def nth_list_update
           split: option.splits if_splits)

lemma part_value_frame: "heap s' kit = heap s kit \<Longrightarrow> part_value s' kit i = part_value s kit i"
  by (simp add: part_value_def slot_def)

lemma first_index_less: "a \<in> set cs \<Longrightarrow> first_index cs a < length cs"
  by (induction cs) auto

lemma cl_find_nonneg: "0 \<le> cl_find cs node \<Longrightarrow> \<exists>a. node = Some a \<and> a \<in> set cs"
  by (auto simp: cl_find_def split: option.splits if_splits)

lemma splice_cases:
  assumes "setPart_splice n s1 kit p node (Some par) = Inr (s', r)"
  shows "(s' = s1 \<and> (r \<longrightarrow> part_value s1 kit p = node))
         \<or> (r \<and> slot s1 kit p \<noteq> None \<and> part_value s1 kit p \<noteq> node \<and>
             (\<exists>cs'. s' = set_slot (set_children s1 par cs') kit p (\<lambda>g. setValue g node)
                  \<and> (\<forall>a. node = Some a \<longrightarrow> a \<in> set cs')))"
proof -
  from assms obtain pn cs fld where pn: "heap s1 par = Some pn" "nchildren pn = Some cs"
    and fld: "slot s1 kit p = Some fld"
    by (auto simp: setPart_splice_def split: option.splits)
  show ?thesis
  proof (cases "fvalue fld = node")
    case True
    with assms pn fld show ?thesis by (simp add: setPart_splice_def part_value_def)
  next
    case False
    show ?thesis
    proof (cases "cl_find cs node \<ge> 0")
      case True
      with assms pn fld False show ?thesis by (simp add: setPart_splice_def)
    next
      case nf: False
      show ?thesis
      proof (cases "fvalue fld")
        case (Some old)
        with assms pn fld False nf have oi: "cl_find cs (Some old) \<ge> 0"
          by (auto simp: setPart_splice_def Let_def split: if_splits)
        then have om: "old \<in> set cs" by (auto dest: cl_find_nonneg)
        show ?thesis
        proof (cases node)
          case None
          with assms pn fld False nf Some oi show ?thesis
            by (auto simp: setPart_splice_def Let_def part_value_def)
        next
          case (Some a)
          have "a \<in> set (cl_set cs (first_index cs old) a)"
            using first_index_less[OF om] by (simp add: cl_set_def set_update_memI)
          with assms pn fld False nf \<open>fvalue fld = Some old\<close> oi om Some show ?thesis
            by (auto simp: setPart_splice_def Let_def part_value_def)
        qed
      next
        case None
        with False obtain a where a: "node = Some a" by (cases node) auto
        from assms pn fld False nf None a
        obtain rs where rs: "getRightSiblingIndex n s1 kit p = Inr rs"
          by (auto simp: setPart_splice_def Let_def elim!: bnd_Inr_elim)
        have "a \<in> set (cl_append cs a)" "\<And>i. a \<in> set (cl_insert cs a i)"
          by (simp_all add: cl_append_def cl_insert_def)
        with assms pn fld False nf None a rs show ?thesis
          by (auto simp: setPart_splice_def Let_def part_value_def split: if_splits option.splits)
      qed
    qed
  qed
qed


lemma splice_part_value:
  assumes "setPart_splice n s1 kit p node (Some par) = Inr (s', r)"
  shows "part_value s' kit i = part_value s1 kit i \<or> (i = p \<and> part_value s' kit i = node)"
  using splice_cases[OF assms] by (auto simp: part_value_set_slot slot_set_children split: if_splits)

lemma new_sp_step:
  assumes mk: "new_mk n"
  shows "new_sp (Suc n)"
  unfolding new_sp_def
proof (intro allI impI)
  fix w s kit p node s' r i v
  assume sp: "setPart (Suc n) w s kit p node = Inr (s', r)" and kit: "kit < nextaddr s"
    and v: "part_value s' kit i = Some v"
  from sp show "part_value s kit i = Some v \<or> node = Some v \<or> nextaddr s \<le> v"
  proof (cases rule: setPart_Suc_elim)
    case mismatch
    with v show ?thesis by simp
  next
    case (splice k e s1 par)
    from splice_part_value[OF splice(8), of i] v
    have "part_value s1 kit i = Some v \<or> node = Some v" by auto
    moreover have "part_value s1 kit i = Some v \<Longrightarrow> part_value s kit i = Some v \<or> nextaddr s \<le> v"
    proof -
      assume a: "part_value s1 kit i = Some v"
      from splice(7) show ?thesis
      proof (elim disjE conjE exE)
        fix r' assume m: "makePart n w s kit (eparent e) = Inr (s1, r')"
        from mk[unfolded new_mk_def, rule_format, OF m kit a] show ?thesis .
      qed (use a in simp_all)
    qed
    ultimately show ?thesis by blast
  qed
qed

lemma createInstance_cancreate:
  assumes "createInstance n w s t = Inr (s', r)" "cancreate w t"
  shows "r = Some (nextaddr s)"
proof (cases n)
  case 0
  with assms show ?thesis by simp
next
  case (Suc m)
  with assms have "createInstance (Suc m) w s t = Inr (s', r)" by simp
  with assms(2) show ?thesis
    unfolding createInstance_Suc_eq
    by (auto simp: Let_def split_def split: if_splits elim!: bnd_Inr_elim)
qed

lemma splice_parent:
  assumes "setPart_splice n s1 kit p node (Some par) = Inr (s', r)"
  shows "\<exists>pn. heap s1 par = Some pn"
  using assms by (auto simp: setPart_splice_def split: option.splits)

lemma makePart_prepared:
  assumes "makePart (Suc n) w s kit p = Inr (s', r)" "kit < nextaddr s"
  obtains e s2 node k where "heap s kit = Some k" "centry (ncatalog k) p = Some e"
    "\<exists>s1. createInstance n w s (edefaulttype e) = Inr (s1, node) \<and> nextaddr s1 \<le> nextaddr s2"
    "\<forall>i. part_value s2 kit i = part_value s kit i" "nextaddr s \<le> nextaddr s2"
    "evolves s s2"
    "setPart n w s2 kit p node = Inr (s', r)"
  using assms(1)
proof (cases rule: makePart_Suc_elim)
  case (1 k e s1 nd s2)
  note ci = createInstance_frame[OF 1(6)]
  note kit = assms(2)
  have h1: "heap s1 kit = heap s kit" using ci(1) kit by (rule frame_below_heap)
  have e1: "evolves s s1" using 1(6) by (rule createInstance_evolves)
  have pv2: "\<forall>i. part_value s2 kit i = part_value s kit i"
  proof
    fix i
    from 1(7) show "part_value s2 kit i = part_value s kit i"
    proof (elim disjE conjE exE)
      assume "s2 = s1" then show ?thesis using part_value_frame[OF h1] by simp
    next
      fix l assume "s2 = list_lock s1 l (eitemtypes e)"
      then show ?thesis using part_value_frame[OF h1] by simp
    next
      fix l s1' c
      assume c: "createInstance n w s1 (econtainertype e) = Inr (s1', Some c)"
        and s2: "s2 = list_lock (list_attach s1' l c) l (eitemtypes e)"
      have "kit < nextaddr s1" using kit ci(2) by simp
      with createInstance_frame(1)[OF c] have "heap s1' kit = heap s1 kit"
        by (rule frame_below_heap)
      then have "heap s1' kit = heap s kit" using h1 by simp
      from part_value_frame[OF this] show ?thesis using s2 by simp
    qed
  qed
  have n2: "nextaddr s1 \<le> nextaddr s2"
    using 1(7)
  proof (elim disjE conjE exE)
    fix l s1' c
    assume c: "createInstance n w s1 (econtainertype e) = Inr (s1', Some c)"
      and s2: "s2 = list_lock (list_attach s1' l c) l (eitemtypes e)"
    show ?thesis using createInstance_frame(2)[OF c] s2 by simp
  qed simp_all
  have e2: "evolves s s2"
    using 1(7)
  proof (elim disjE conjE exE)
    assume "s2 = s1" then show ?thesis using e1 by simp
  next
    fix l assume "s2 = list_lock s1 l (eitemtypes e)"
    then show ?thesis using e1 by (simp add: evolves_list_lock)
  next
    fix l s1' c
    assume c: "createInstance n w s1 (econtainertype e) = Inr (s1', Some c)"
      and s2: "s2 = list_lock (list_attach s1' l c) l (eitemtypes e)"
    have "evolves s s1'" using createInstance_evolves[OF c] e1 by (rule evolves_trans)
    then show ?thesis using s2 by (simp add: evolves_list_lock evolves_list_attach)
  qed
  show ?thesis
    by (rule that[of k e nd s2]) (use 1 pv2 n2 ci e2 in auto)
qed



lemma new_mk_step:
  assumes sp: "new_sp n"
  shows "new_mk (Suc n)"
  unfolding new_mk_def
proof (intro allI impI)
  fix w s kit p s' r i v
  assume mk: "makePart (Suc n) w s kit p = Inr (s', r)" and kit: "kit < nextaddr s"
    and v: "part_value s' kit i = Some v"
  from mk kit obtain e s2 node k where
    p: "heap s kit = Some k" "centry (ncatalog k) p = Some e"
       "\<exists>s1. createInstance n w s (edefaulttype e) = Inr (s1, node) \<and> nextaddr s1 \<le> nextaddr s2"
       "\<forall>i. part_value s2 kit i = part_value s kit i" "nextaddr s \<le> nextaddr s2"
       "evolves s s2"
       "setPart n w s2 kit p node = Inr (s', r)"
    by (rule makePart_prepared)
  from p(3) obtain s1 where ci: "createInstance n w s (edefaulttype e) = Inr (s1, node)" by auto
  from kit p(5) have "kit < nextaddr s2" by simp
  from sp[unfolded new_sp_def, rule_format, OF p(7) this v]
  have "part_value s2 kit i = Some v \<or> node = Some v \<or> nextaddr s2 \<le> v" .
  with p(4,5) createInstance_frame(3)[OF ci] show "part_value s kit i = Some v \<or> nextaddr s \<le> v"
    by auto
qed

lemma new_all: "new_mk n \<and> new_sp n"
proof (induction n)
  case 0
  show ?case by (simp add: new_mk_def new_sp_def)
next
  case (Suc n)
  then show ?case by (simp add: new_mk_step new_sp_step)
qed

lemma makePart_new:
  assumes "makePart n w s kit p = Inr (s', r)" "kit < nextaddr s" "part_value s' kit i = Some v"
  shows "part_value s kit i = Some v \<or> nextaddr s \<le> v"
proof -
  have "new_mk n" using new_all[of n] by simp
  from this[unfolded new_mk_def, rule_format, OF assms] show ?thesis .
qed

lemma evolves_catalog:
  assumes "evolves s s'" "heap s kit = Some k" "kit < nextaddr s"
  obtains k' where "heap s' kit = Some k'" "ncatalog k' = ncatalog k"
    "length (ninstancelist k') = length (ninstancelist k)"
  using evolves_shape[OF assms(1)] assms(2,3) unfolding keeps_shape_def by blast

lemma makePart_installs:
  assumes mk: "makePart n w s kit p = Inr (s', True)" and kit: "kit < nextaddr s"
    and k: "heap s kit = Some k" and e: "centry (ncatalog k) p = Some e"
    and cc: "cancreate w (edefaulttype e)" and pp: "eparent e \<noteq> p"
  shows "\<exists>a par cs. part_value s' kit p = Some a \<and> nextaddr s \<le> a \<and>
           part_parent s' kit p = Some par \<and> children_of s' par = Some cs \<and> a \<in> set cs"
proof -
  from mk obtain m where n: "n = Suc m" by (cases n) auto
  from mk[unfolded n] kit obtain e' s2 node k' where
    p: "heap s kit = Some k'" "centry (ncatalog k') p = Some e'"
       "\<exists>s1. createInstance m w s (edefaulttype e') = Inr (s1, node) \<and> nextaddr s1 \<le> nextaddr s2"
       "\<forall>i. part_value s2 kit i = part_value s kit i" "nextaddr s \<le> nextaddr s2"
       "evolves s s2"
       "setPart m w s2 kit p node = Inr (s', True)"
    by (rule makePart_prepared)
  from p(1,2) k e have [simp]: "k' = k" "e' = e" by simp_all
  from p(3) obtain s1 where ci: "createInstance m w s (edefaulttype e) = Inr (s1, node)"
    and n12: "nextaddr s1 \<le> nextaddr s2" by auto
  from createInstance_cancreate[OF ci cc] have node: "node = Some (nextaddr s)" .
  let ?a = "nextaddr s"
  from createInstance_frame(3)[OF ci node] have a1: "?a < nextaddr s1" by simp
  from mk[unfolded n] have pv0: "part_value s kit p = None"
    by (rule makePart_Suc_elim)
  from p(7) obtain m' where m: "m = Suc m'" by (cases m) auto
  from evolves_catalog[OF p(6) k kit] obtain k2 where
    k2: "heap s2 kit = Some k2" "ncatalog k2 = ncatalog k" by blast
  have kit2: "kit < nextaddr s2" using kit p(5) by simp
  from p(7)[unfolded m] show ?thesis
  proof (cases rule: setPart_Suc_elim)
    case mismatch
    then show ?thesis by simp
  next
    case (splice k3 e3 s3 par)
    from splice(1,4) k2 e have [simp]: "k3 = k2" "e3 = e" by simp_all
    have ev3: "evolves s2 s3"
      using splice(7) by (auto intro: ev_refl makePart_evolves)
    have pv3: "part_value s3 kit p \<noteq> Some ?a"
    proof
      assume a: "part_value s3 kit p = Some ?a"
      from splice(7) have "part_value s2 kit p = Some ?a \<or> nextaddr s2 \<le> ?a"
      proof (elim disjE conjE exE)
        fix r' assume "makePart m' w s2 kit (eparent e3) = Inr (s3, r')"
        from makePart_new[OF this kit2 a] show ?thesis .
      qed (use a in simp_all)
      with p(4) pv0 a1 n12 show False by auto
    qed
    from evolves_catalog[OF ev3 k2(1) kit2] k2(2) obtain k4 where
      k4: "heap s3 kit = Some k4" "ncatalog k4 = ncatalog k" by metis
    from splice_parent[OF splice(8)] obtain pn where pn: "heap s3 par = Some pn" ..
    have par3: "part_parent s3 kit p = Some par"
      using splice(7) k4 e by (auto simp: part_parent_def)
    from splice_cases[OF splice(8)] pv3 node
    obtain cs' where s': "s' = set_slot (set_children s3 par cs') kit p (\<lambda>g. setValue g (Some ?a))"
      and sl: "slot s3 kit p \<noteq> None" and mem: "?a \<in> set cs'"
      by auto
    have 1: "part_value s' kit p = Some ?a"
      using s' sl by (simp add: part_value_set_slot)
    have 2: "children_of s' par = Some cs'"
      using s' pn by (simp add: children_of_set_children)
    have "evolves s3 s'" unfolding s' by (intro evolves_set_slot evolves_set_children ev_refl)
    from evolves_catalog[OF this k4(1)] kit2 evolves_shape[OF ev3] k4(2)
    obtain k5 where k5: "heap s' kit = Some k5" "ncatalog k5 = ncatalog k"
      by (metis less_le_trans)
    have 3: "part_parent s' kit p = Some par"
    proof (cases "eparent e = 0")
      case True
      with par3 k4 e k5 show ?thesis by (simp add: part_parent_def)
    next
      case False
      with par3 k4 e have "part_value s3 kit (eparent e) = Some par" by (simp add: part_parent_def)
      with pp have "part_value s' kit (eparent e) = Some par"
        unfolding s' by (simp add: part_value_set_slot)
      with False k5 e show ?thesis by (simp add: part_parent_def)
    qed
    from 1 2 3 mem show ?thesis by blast
  qed
qed

lemma strchr_None: "c \<notin> set xs \<Longrightarrow> strchr xs c = None"
  by (induction xs) auto

lemma first_segment_plain:
  "CHR ''.'' \<notin> set name \<Longrightarrow> CHR ''['' \<notin> set name \<Longrightarrow> first_segment name = Some (name, False, 0, None)"
  by (simp add: first_segment_def strchr_None)

lemma findPart_plain:
  assumes "heap s kit = Some k" "name \<noteq> ''this''"
    "CHR ''.'' \<notin> set name" "CHR ''['' \<notin> set name"
    "getPartNumber (ncatalog k) name = p" "0 < p" "p < int (length (ninstancelist k))"
    "(if mk \<and> part_value s kit p = None then makePart n w s kit p else Inr (s, True)) = Inr (s1, r)"
  shows "findPart (Suc n) w s kit name mk rs = Inr (s1, Some (kit, p, False, 0))"
proof -
  from assms(1,6,7) have pv: "fvalue (ninstancelist k ! nat p) = part_value s kit p"
    by (simp add: part_value_def slot_def)
  show ?thesis
    using assms(1,2,5,6,7,8) first_segment_plain[OF assms(3,4)] pv
    by (auto simp: Let_def split: if_splits)
qed


section \<open>Clearing a part\<close>

text \<open>
  C8, as the claim has it, fails in a store the program reaches: after the example kit's
  separator part has been replaced by a fresh separator, the shape part's slot still holds
  the cube, which is not a child of the new separator, and \<^verbatim>\<open>setPart\<close> of the shape part
  with a null node stops at \<^verbatim>\<open>assert(oldIdx >= 0)\<close>.
\<close>

theorem setPart_null_counterexample:
  "(case bnd (createInstance 1 demo_world demo_state 2)
            (\<lambda>(s1, a). setPart 1 demo_world s1 0 1 a) of
      Inl x \<Rightarrow> False
    | Inr (s', r) \<Rightarrow> r \<and> part_value s' 0 3 = Some 1
                     \<and> setPart 5 demo_world s' 0 3 None = Inl AssertFailed)"
  by (simp add: eval2_defs eval_nat_numeral)

text \<open>
  C8, amended.  When the slot of part \<open>p\<close> holds the node \<open>old\<close>, the part's parent node
  exists and \<open>old\<close> is among its children \<open>cs\<close>, \<open>setPart\<close> with a null node returns
  \<^verbatim>\<open>TRUE\<close>; the parent's child list loses exactly the first occurrence of \<open>old\<close>
  (\<open>cs = xs @ old # ys\<close> becomes \<open>xs @ ys\<close>: all other children, in the same order), and
  the slot's value is null.
\<close>

theorem setPart_null_removes_one:
  assumes "slot s kit p = Some f" and "fvalue f = Some old"
    and "part_parent s kit p = Some par" and "children_of s par = Some cs"
    and "old \<in> set cs"
  shows "\<exists>s' xs ys. setPart (Suc n) w s kit p None = Inr (s', True)
           \<and> cs = xs @ old # ys \<and> old \<notin> set xs
           \<and> children_of s' par = Some (xs @ ys)
           \<and> slot s' kit p = Some (setValue f None)"
proof -
  from \<open>old \<in> set cs\<close> obtain xs ys where cs: "cs = xs @ old # ys" "old \<notin> set xs"
    by (auto dest: split_list_first)
  from assms(4) obtain pn where pn: "heap s par = Some pn" "nchildren pn = Some cs"
    by (auto simp: children_of_def split: option.splits)
  have "setPart (Suc n) w s kit p None = setPart_splice n s kit p None (Some par)"
    using assms(1,3) by (rule setPart_to_splice) simp
  also have "\<dots> = Inr (set_slot (set_children s par (xs @ ys)) kit p (\<lambda>g. setValue g None), True)"
    using assms(1,2) pn cs
    by (simp add: setPart_splice_def Let_def cl_remove_first del: first_index.simps)
  finally show ?thesis
    using cs pn assms(1)
    by (auto simp: children_of_set_children slot_set_slot_same)
qed

theorem setPart_null_removes_one_witness:
  "\<exists>s'. setPart (Suc 0) demo_world demo_state4 0 5 None = Inr (s', True)
     \<and> children_of demo_state4 0 = Some [2, 3, 4]
     \<and> children_of s' 0 = Some [2, 4] \<and> part_value s' 0 5 = None"
  using setPart_null_removes_one
    [of demo_state4 0 5 "\<lparr>fvalue = Some 3, fdefault = True\<rparr>" 3 0 "[2, 3, 4]" 0 demo_world]
  by (simp add: eval2_defs demo_state4_def demo_hidden_def eval_nat_numeral)
section \<open>The order of the write table\<close>

lemma writedata_pass_filter:
  "writedata_pass cat pass fs wd =
     wd @ filter (\<lambda>nm. \<not> (getPartNumber cat nm > 0 \<and> \<not> isPublic cat (getPartNumber cat nm)) \<and>
                    ((pass = 0 \<and> getPartNumber cat nm < 0) \<or>
                     (pass = 1 \<and> getPartNumber cat nm > 0 \<and> isLeaf cat (getPartNumber cat nm)) \<or>
                     (pass = 2 \<and> getPartNumber cat nm > 0 \<and> \<not> isLeaf cat (getPartNumber cat nm)))) fs"
  by (induction fs arbitrary: wd) (auto simp: Let_def)

lemma write_table_eq:
  "write_table cat fs =
     filter (\<lambda>nm. getPartNumber cat nm < 0) fs @
     filter (\<lambda>nm. 0 < getPartNumber cat nm \<and> isPublic cat (getPartNumber cat nm)
                  \<and> isLeaf cat (getPartNumber cat nm)) fs @
     filter (\<lambda>nm. 0 < getPartNumber cat nm \<and> isPublic cat (getPartNumber cat nm)
                  \<and> \<not> isLeaf cat (getPartNumber cat nm)) fs"
proof -
  have a: "filter (\<lambda>nm. \<not> (getPartNumber cat nm > 0 \<and> \<not> isPublic cat (getPartNumber cat nm)) \<and>
                    (((0::nat) = 0 \<and> getPartNumber cat nm < 0) \<or>
                     ((0::nat) = 1 \<and> getPartNumber cat nm > 0 \<and> isLeaf cat (getPartNumber cat nm)) \<or>
                     ((0::nat) = 2 \<and> getPartNumber cat nm > 0 \<and> \<not> isLeaf cat (getPartNumber cat nm)))) fs
           = filter (\<lambda>nm. getPartNumber cat nm < 0) fs"
    by (rule filter_cong) auto
  have b: "filter (\<lambda>nm. \<not> (getPartNumber cat nm > 0 \<and> \<not> isPublic cat (getPartNumber cat nm)) \<and>
                    (((1::nat) = 0 \<and> getPartNumber cat nm < 0) \<or>
                     ((1::nat) = 1 \<and> getPartNumber cat nm > 0 \<and> isLeaf cat (getPartNumber cat nm)) \<or>
                     ((1::nat) = 2 \<and> getPartNumber cat nm > 0 \<and> \<not> isLeaf cat (getPartNumber cat nm)))) fs
           = filter (\<lambda>nm. 0 < getPartNumber cat nm \<and> isPublic cat (getPartNumber cat nm)
                  \<and> isLeaf cat (getPartNumber cat nm)) fs"
    by (rule filter_cong) auto
  have c: "filter (\<lambda>nm. \<not> (getPartNumber cat nm > 0 \<and> \<not> isPublic cat (getPartNumber cat nm)) \<and>
                    (((2::nat) = 0 \<and> getPartNumber cat nm < 0) \<or>
                     ((2::nat) = 1 \<and> getPartNumber cat nm > 0 \<and> isLeaf cat (getPartNumber cat nm)) \<or>
                     ((2::nat) = 2 \<and> getPartNumber cat nm > 0 \<and> \<not> isLeaf cat (getPartNumber cat nm)))) fs
           = filter (\<lambda>nm. 0 < getPartNumber cat nm \<and> isPublic cat (getPartNumber cat nm)
                  \<and> \<not> isLeaf cat (getPartNumber cat nm)) fs"
    by (rule filter_cong) auto
  show ?thesis
    unfolding write_table_def writedata_passes.simps writedata_pass_filter a b c by simp
qed

lemma writedata_write_subset:
  "heap s kit = Some k \<Longrightarrow> nwritedata k = Some table \<Longrightarrow> set (writedata_write w s kit) \<subseteq> set table"
  by (auto simp: writedata_write_def)

text \<open>
  C4.  The table built by \<^verbatim>\<open>createWriteData\<close> lists first the fields that are not parts,
  then the public leaf parts, then the public non-leaf parts, each group in declaration
  order.  A private part is not in the table, and hence not among the fields the
  \<^verbatim>\<open>WRITE\<close> stage emits from that table.
\<close>

theorem createWriteData_order:
  assumes "heap s kit = Some k"
  shows "writedata_of (createWriteData s kit) kit =
           Some (filter (\<lambda>nm. getPartNumber (ncatalog k) nm < 0) (nfieldnames k) @
                 filter (\<lambda>nm. 0 < getPartNumber (ncatalog k) nm
                            \<and> isPublic (ncatalog k) (getPartNumber (ncatalog k) nm)
                            \<and> isLeaf (ncatalog k) (getPartNumber (ncatalog k) nm)) (nfieldnames k) @
                 filter (\<lambda>nm. 0 < getPartNumber (ncatalog k) nm
                            \<and> isPublic (ncatalog k) (getPartNumber (ncatalog k) nm)
                            \<and> \<not> isLeaf (ncatalog k) (getPartNumber (ncatalog k) nm)) (nfieldnames k))
         \<and> (\<forall>nm. 0 < getPartNumber (ncatalog k) nm
                  \<and> \<not> isPublic (ncatalog k) (getPartNumber (ncatalog k) nm)
               \<longrightarrow> (\<forall>table. writedata_of (createWriteData s kit) kit = Some table
                               \<longrightarrow> nm \<notin> set table)
                 \<and> (\<forall>w s'. writedata_of s' kit = writedata_of (createWriteData s kit) kit
                               \<longrightarrow> nm \<notin> set (writedata_write w s' kit)))"
proof -
  have wd: "writedata_of (createWriteData s kit) kit
              = Some (write_table (ncatalog k) (nfieldnames k))"
    using assms by (simp add: writedata_of_def createWriteData_def upd_def)
  have tab: "\<And>nm. 0 < getPartNumber (ncatalog k) nm
               \<Longrightarrow> \<not> isPublic (ncatalog k) (getPartNumber (ncatalog k) nm)
               \<Longrightarrow> nm \<notin> set (write_table (ncatalog k) (nfieldnames k))"
    by (auto simp: write_table_eq)
  have em: "\<And>nm w s'. 0 < getPartNumber (ncatalog k) nm
               \<Longrightarrow> \<not> isPublic (ncatalog k) (getPartNumber (ncatalog k) nm)
               \<Longrightarrow> writedata_of s' kit = Some (write_table (ncatalog k) (nfieldnames k))
               \<Longrightarrow> nm \<notin> set (writedata_write w s' kit)"
  proof -
    fix nm w s'
    assume a: "0 < getPartNumber (ncatalog k) nm"
      "\<not> isPublic (ncatalog k) (getPartNumber (ncatalog k) nm)"
      "writedata_of s' kit = Some (write_table (ncatalog k) (nfieldnames k))"
    from a(3) obtain k' where "heap s' kit = Some k'"
      "nwritedata k' = Some (write_table (ncatalog k) (nfieldnames k))"
      by (auto simp: writedata_of_def split: option.splits)
    from writedata_write_subset[OF this] tab[OF a(1,2)]
    show "nm \<notin> set (writedata_write w s' kit)" by blast
  qed
  show ?thesis
    unfolding wd using tab em by (simp add: write_table_eq[symmetric])
qed

theorem createWriteData_order_witness:
  "writedata_of (createWriteData demo_state 0) 0
     = Some [''renderCaching'', ''transform'', ''shape'', ''a'', ''label'', ''topSeparator'']
   \<and> ''hidden'' \<notin> set (writedata_write demo_world (createWriteData demo_state 0) 0)"
  using createWriteData_order [of demo_state 0 demo_kit]
  apply (simp add: demo_defs centry_def getPartNumber_def isPublic_def isLeaf_def)
  done

section \<open>The default-suppression policy\<close>

lemma mfold_part_rel:
  assumes "part_rel Q step"
  shows "mfold step is il = Inr il' \<Longrightarrow> distinct is \<Longrightarrow> \<forall>i \<in> set is. i < length il \<Longrightarrow>
           length il' = length il \<and> (\<forall>j. j \<notin> set is \<longrightarrow> il' ! j = il ! j)
           \<and> (\<forall>i \<in> set is. Q i (il ! i) (il' ! i))"
proof (induction "is" arbitrary: il)
  case Nil
  then show ?case by simp
next
  case (Cons i "is")
  from Cons.prems(1) obtain il1 where s1: "step i il = Inr il1" and s2: "mfold step is il1 = Inr il'"
    by (cases "step i il") auto
  from assms s1 Cons.prems(3)
  have a: "length il1 = length il" "\<And>j. j \<noteq> i \<Longrightarrow> il1 ! j = il ! j" "Q i (il ! i) (il1 ! i)"
    unfolding part_rel_def by auto
  from Cons.IH[OF s2] Cons.prems(2,3) a(1)
  have b: "length il' = length il1" "\<And>j. j \<notin> set is \<Longrightarrow> il' ! j = il1 ! j"
    "\<And>j. j \<in> set is \<Longrightarrow> Q j (il1 ! j) (il' ! j)"
    by auto
  show ?case
  proof (intro conjI allI ballI impI)
    show "length il' = length il" using a b by simp
  next
    fix j assume "j \<notin> set (i # is)"
    then show "il' ! j = il ! j" using a(2) b(2) by auto
  next
    fix j assume j: "j \<in> set (i # is)"
    show "Q j (il ! j) (il' ! j)"
    proof (cases "j = i")
      case True
      with Cons.prems(2) have "i \<notin> set is" by simp
      then show ?thesis using True a(3) b(2) by simp
    next
      case False
      with j have "j \<in> set is" by simp
      from b(3)[OF this] a(2)[OF False] show ?thesis by simp
    qed
  qed
qed

lemma parts_loop_rel:
  assumes "part_rel Q step" and "parts_loop step s kit = Inr s'" and "slot s kit i = Some f"
  shows "\<exists>f'. slot s' kit i = Some f' \<and> Q (nat i) f f'"
proof -
  from assms(3) obtain k where k: "heap s kit = Some k" "0 < i" "i < int (length (ninstancelist k))"
    "f = ninstancelist k ! nat i"
    by (auto simp: slot_def split: option.splits if_splits)
  from assms(2) k(1) obtain il' where
    il': "mfold step [1 ..< length (ninstancelist k)] (ninstancelist k) = Inr il'"
    and s': "s' = upd s kit (\<lambda>nd. nd\<lparr>ninstancelist := il'\<rparr>)"
    by (cases "mfold step [1 ..< length (ninstancelist k)] (ninstancelist k)")
       (auto simp: parts_loop_def)
  from k(2,3) have ni: "nat i \<in> set [1 ..< length (ninstancelist k)]" by auto
  from mfold_part_rel[OF assms(1) il']
  have "length il' = length (ninstancelist k)"
    "\<forall>j \<in> set [1 ..< length (ninstancelist k)]. Q j (ninstancelist k ! j) (il' ! j)"
    by auto
  with ni have "length il' = length (ninstancelist k)" "Q (nat i) (ninstancelist k ! nat i) (il' ! nat i)"
    by blast+
  then show ?thesis
    using k s' by (auto simp: slot_def upd_def)
qed

lemma SoTypes_distinct [simp]:
  "SoGroup_t \<noteq> SoNodeKitListPart_t" "SoSeparator_t \<noteq> SoNodeKitListPart_t"
  "SoNodeKitListPart_t \<noteq> SoGroup_t" "SoNodeKitListPart_t \<noteq> SoSeparator_t"
  by (simp_all add: SoGroup_t_def SoSeparator_t_def SoNodeKitListPart_t_def)

lemma is_default_node_self:
  "is_default_node w nd (ntype nd) \<longleftrightarrow>
     num_children nd = 0 \<and> all_fields_default (nfields nd) (classfields w (ntype nd))"
  by (auto simp: is_default_node_def num_children_def split: option.splits)

lemma nonwriting_step_rel: "part_rel (nonwriting_rel w s cat) (nonwriting_step w s cat)"
  unfolding part_rel_def
proof (intro allI impI)
  fix i il il'
  assume st: "nonwriting_step w s cat i il = Inr il'" and i: "i < length il"
  show "length il' = length il \<and> (\<forall>j. j \<noteq> i \<longrightarrow> il' ! j = il ! j)
          \<and> nonwriting_rel w s cat i (il ! i) (il' ! i)"
  proof (cases "fdefault (il ! i)")
    case True
    with st have "il' = il" by (simp add: nonwriting_step_def)
    with True show ?thesis by (simp add: nonwriting_rel_def)
  next
    case False
    with st obtain e where e: "centry cat (int i) = Some e"
      by (cases "centry cat (int i)") (auto simp: nonwriting_step_def)
    show ?thesis
    proof (cases "fvalue (il ! i)")
      case None
      with st False e i show ?thesis
        by (auto simp: nonwriting_step_def nonwriting_rel_def setDefault_def policy_a_def
              policy_b_def policy_c_def policy_d_def split: if_splits)
    next
      case (Some a)
      with st False e obtain nd where nd: "heap s a = Some nd"
        by (cases "heap s a") (auto simp: nonwriting_step_def)
      show ?thesis
      proof (cases "eleaf e")
        case leaf: True
        show ?thesis
        proof (cases "(ntype nd = SoGroup_t \<or> ntype nd = SoSeparator_t) \<and> num_children nd = 0")
          case True
          with st False e Some nd leaf i show ?thesis
            by (auto simp: nonwriting_step_def nonwriting_rel_def setDefault_def policy_b_def)
        next
          case nb: False
          show ?thesis
          proof (cases "ntype nd = SoNodeKitListPart_t")
            case True
            with st False e Some nd leaf nb obtain cn where cn: "list_container s nd = Inr cn"
              by (cases "list_container s nd") (auto simp: nonwriting_step_def Let_def)
            with st False e Some nd leaf nb True i show ?thesis
              by (auto simp: nonwriting_step_def nonwriting_rel_def setDefault_def Let_def
                    policy_a_def policy_b_def policy_c_def policy_d_def split: if_splits)
          next
            case False
            with st \<open>\<not> fdefault (il ! i)\<close> e Some nd leaf nb i show ?thesis
              by (auto simp: nonwriting_step_def nonwriting_rel_def setDefault_def Let_def
                    policy_a_def policy_b_def policy_c_def policy_d_def split: if_splits)
          qed
        qed
      next
        case False
        with st \<open>\<not> fdefault (il ! i)\<close> e Some nd i show ?thesis
          by (auto simp: nonwriting_step_def nonwriting_rel_def setDefault_def Let_def
                is_default_node_self
                policy_a_def policy_b_def policy_c_def policy_d_def split: if_splits)
      qed
    qed
  qed
qed

text \<open>
  C5 (as amended).  \<^verbatim>\<open>setDefaultOnNonWritingFields\<close> keeps every part's node, leaves a
  field that is already default as it is, and marks a non-default field default exactly
  when one of the four tests holds: (a) the slot is null and the part is null by default;
  (b) a leaf whose node is a group or separator with no children; (c) a leaf list part with
  no children whose container is a group or separator; (d) a non-leaf part whose node is
  of a type derived from the group class, has no children and has all its fields at the
  default values of the node's own type.
\<close>

theorem nonwriting_fields_policy:
  assumes "setDefaultOnNonWritingFields w s kit = Inr s'"
    and "heap s kit = Some k" and "slot s kit i = Some f" and "centry (ncatalog k) i = Some e"
  shows "\<exists>f'. slot s' kit i = Some f' \<and> fvalue f' = fvalue f \<and>
           (fdefault f' \<longleftrightarrow>
              fdefault f \<or> policy_a e f \<or> policy_b s e f \<or> policy_c s e f \<or> policy_d w s e f)"
proof -
  from assms(1,2) have "parts_loop (nonwriting_step w s (ncatalog k)) s kit = Inr s'"
    by (simp add: setDefaultOnNonWritingFields_def)
  from parts_loop_rel[OF nonwriting_step_rel this assms(3)]
  obtain f' where "slot s' kit i = Some f'" "nonwriting_rel w s (ncatalog k) (nat i) f f'"
    by blast
  moreover from assms(3) have "0 < i" by (auto simp: slot_def split: option.splits if_splits)
  ultimately show ?thesis using assms(4) by (auto simp: nonwriting_rel_def)
qed

theorem nonwriting_fields_policy_witness:
  "\<exists>s'. setDefaultOnNonWritingFields demo_world demo_state2 0 = Inr s'
       \<and> slot s' 0 1 = Some \<lparr>fvalue = Some 4, fdefault = True\<rparr>
       \<and> slot s' 0 3 = Some \<lparr>fvalue = None, fdefault = False\<rparr>"
proof -
  obtain s' where e: "setDefaultOnNonWritingFields demo_world demo_state2 0 = Inr s'"
    by (simp add: eval_defs eval_nat_numeral)
  have k: "heap demo_state2 0 = Some demo_kit2" by (simp add: demo_state2_def)
  have "\<exists>f'. slot s' 0 1 = Some f' \<and> fvalue f' = Some 4 \<and> fdefault f'"
    using nonwriting_fields_policy [OF e k, of 1 "\<lparr>fvalue = Some 4, fdefault = False\<rparr>" "demo_catalog ! 1"]
    by (simp add: eval_defs)
  moreover have "\<exists>f'. slot s' 0 3 = Some f' \<and> fvalue f' = None \<and> \<not> fdefault f'"
    using nonwriting_fields_policy [OF e k, of 3 "\<lparr>fvalue = None, fdefault = False\<rparr>" "demo_catalog ! 3"]
    by (simp add: eval_defs)
  ultimately show ?thesis using e by auto
qed

text \<open>
  The claim as stated fails: after the whole count pass the label part of the example kit,
  built by default and never touched, is still default and not written, though it is
  neither null, nor a group, nor a list, nor a non-leaf part; and in the second store the
  separator part is marked default although its node is not of the part's default type.
\<close>

theorem default_kept_counterexample:
  "(case countMyFields 2 demo_world (\<lambda>t c k p. 0) demo_state 0 of
      Inl x \<Rightarrow> False
    | Inr (s', ws) \<Rightarrow>
        (case slot s' 0 5 of None \<Rightarrow> False
         | Some f \<Rightarrow> fdefault f \<and> \<not> policy_a (demo_catalog ! 5) f
             \<and> \<not> policy_b s' (demo_catalog ! 5) f \<and> \<not> policy_c s' (demo_catalog ! 5) f
             \<and> \<not> spec_policy_d demo_world s' (demo_catalog ! 5) f)
        \<and> ''label'' \<notin> set ws)
   \<and> (case countMyFields 2 demo_world (\<lambda>t c k p. 0) demo_state2 0 of
      Inl x \<Rightarrow> False
    | Inr (s', ws) \<Rightarrow>
        (case slot s' 0 1 of None \<Rightarrow> False
         | Some f \<Rightarrow> fdefault f \<and> \<not> policy_a (demo_catalog ! 1) f
             \<and> \<not> policy_b s' (demo_catalog ! 1) f \<and> \<not> policy_c s' (demo_catalog ! 1) f
             \<and> \<not> spec_policy_d demo_world s' (demo_catalog ! 1) f)
        \<and> ''topSeparator'' \<notin> set ws)"
  by (simp add: eval_defs eval_nat_numeral)

section \<open>Parent forces write\<close>

lemma parentwrite_step_mono:
  assumes "parentwrite_step gi cat wd kit i il = Inr il'" and "i < length il"
  shows "length il' = length il \<and> (\<forall>j. fvalue (il' ! j) = fvalue (il ! j))
         \<and> (\<forall>j. \<not> fdefault (il ! j) \<longrightarrow> \<not> fdefault (il' ! j))
         \<and> (\<forall>j. j \<noteq> i \<longrightarrow> il' ! j = il ! j)"
proof -
  have "il' = il \<or> il' = il[i := setDefault (il ! i) False]"
    using assms(1)
    by (auto simp: parentwrite_step_def Let_def split: if_splits option.splits)
  then show ?thesis
    using assms(2) by (auto simp: setDefault_def nth_list_update split: if_splits)
qed

lemma parentwrite_loop_mono:
  "mfold (parentwrite_step gi cat wd kit) is il = Inr il' \<Longrightarrow> \<forall>i \<in> set is. i < length il \<Longrightarrow>
     length il' = length il \<and> (\<forall>j. fvalue (il' ! j) = fvalue (il ! j))
     \<and> (\<forall>j. \<not> fdefault (il ! j) \<longrightarrow> \<not> fdefault (il' ! j))"
proof (induction "is" arbitrary: il)
  case Nil
  then show ?case by simp
next
  case (Cons i "is")
  from Cons.prems(1) obtain il1 where s1: "parentwrite_step gi cat wd kit i il = Inr il1"
    and s2: "mfold (parentwrite_step gi cat wd kit) is il1 = Inr il'"
    by (cases "parentwrite_step gi cat wd kit i il") auto
  from parentwrite_step_mono[OF s1] Cons.prems(2)
  have a: "length il1 = length il" "\<And>j. fvalue (il1 ! j) = fvalue (il ! j)"
    "\<And>j. \<not> fdefault (il ! j) \<Longrightarrow> \<not> fdefault (il1 ! j)"
    by auto
  from Cons.IH[OF s2] Cons.prems(2) a(1)
  have b: "length il' = length il1" "\<And>j. fvalue (il' ! j) = fvalue (il1 ! j)"
    "\<And>j. \<not> fdefault (il1 ! j) \<Longrightarrow> \<not> fdefault (il' ! j)"
    by auto
  show ?case using a b by auto
qed

lemma parentwrite_step_fire:
  assumes "parentwrite_step gi cat (Some table) kit i il = Inr il'" and "i < length il"
    and "fvalue (il ! i) = Some n" and "centry cat (int i) = Some e" and "0 < eparent e"
    and "eparent e < int (length il)"
    and "fvalue (il ! nat (eparent e)) \<noteq> None" and "\<not> fdefault (il ! nat (eparent e))"
    and "gi table n kit (eparent e) \<ge> 0"
  shows "\<not> fdefault (il' ! i)"
  using assms
  by (auto simp: parentwrite_step_def Let_def setDefault_def split: if_splits)

lemma parentwrite_loop_fire:
  "mfold (parentwrite_step gi cat (Some table) kit) is il = Inr il' \<Longrightarrow>
   \<forall>j \<in> set is. j < length il \<Longrightarrow> i \<in> set is \<Longrightarrow>
   fvalue (il ! i) = Some n \<Longrightarrow> centry cat (int i) = Some e \<Longrightarrow> 0 < eparent e \<Longrightarrow>
   eparent e < int (length il) \<Longrightarrow>
   fvalue (il ! nat (eparent e)) \<noteq> None \<Longrightarrow> \<not> fdefault (il ! nat (eparent e)) \<Longrightarrow>
   gi table n kit (eparent e) \<ge> 0 \<Longrightarrow>
   \<not> fdefault (il' ! i)"
proof (induction "is" arbitrary: il)
  case Nil
  then show ?case by simp
next
  case (Cons j "is")
  from Cons.prems(1) obtain il1 where s1: "parentwrite_step gi cat (Some table) kit j il = Inr il1"
    and s2: "mfold (parentwrite_step gi cat (Some table) kit) is il1 = Inr il'"
    by (cases "parentwrite_step gi cat (Some table) kit j il") auto
  from parentwrite_step_mono[OF s1] Cons.prems(2)
  have a: "length il1 = length il" "\<And>j. fvalue (il1 ! j) = fvalue (il ! j)"
    "\<And>j. \<not> fdefault (il ! j) \<Longrightarrow> \<not> fdefault (il1 ! j)"
    by auto
  have rng: "\<forall>j \<in> set is. j < length il1" using Cons.prems(2) a(1) by simp
  show ?case
  proof (cases "j = i")
    case True
    from parentwrite_step_fire[OF s1[unfolded True] _ Cons.prems(4-10)] Cons.prems(2) True
    have "\<not> fdefault (il1 ! i)" by simp
    with parentwrite_loop_mono[OF s2 rng] show ?thesis by blast
  next
    case False
    with Cons.prems(3) have "i \<in> set is" by simp
    from Cons.IH[OF s2 rng this] a Cons.prems(4-10) show ?thesis by simp
  qed
qed




section \<open>The instance hierarchy\<close>

lemma sibling_walk_nearest:
  "nearest_sibling cat il sib k r \<Longrightarrow> k < n \<Longrightarrow> sibling_walk n cat il sib = Inr r"
proof (induction arbitrary: n rule: nearest_sibling.induct)
  case (ns_none sib cat il)
  then show ?case by (cases n) auto
next
  case (ns_built sib il cat)
  then show ?case by (cases n) auto
next
  case (ns_next sib il cat e k r)
  from ns_next.prems obtain m where "n = Suc m" "k < m" by (cases n) auto
  with ns_next show ?case by simp
qed

lemma nearest_sibling_built:
  "nearest_sibling cat il sib k r \<Longrightarrow> 0 \<le> r \<Longrightarrow>
     0 < r \<and> r < int (length il) \<and> fvalue (il ! nat r) \<noteq> None"
  by (induction rule: nearest_sibling.induct) auto

lemma demo_state8_built:
  "bnd (setPart 1 demo_world demo_state 0 3 None)
     (\<lambda>(s1, r1). bnd (setPart 1 demo_world s1 0 1 None)
        (\<lambda>(s2, r2). createInstance 1 demo_world s2 2)) = Inr (demo_state8, Some 4)"
  apply (simp add: eval2_defs demo_state8_def demo_kit8_def eval_nat_numeral)
  apply (rule ext)
  apply (simp add: eval2_defs demo_kit8_def)
  done

lemma demo_nearest_sibling:
  "nearest_sibling (ncatalog demo_kit8) (ninstancelist demo_kit8)
     (esibling (demo_catalog ! 1)) (Suc 0) 5"
proof -
  have "nearest_sibling (ncatalog demo_kit8) (ninstancelist demo_kit8) 5 0 5"
    by (rule ns_built) (simp_all add: demo_defs demo_kit8_def)
  then have a: "nearest_sibling (ncatalog demo_kit8) (ninstancelist demo_kit8)
                  (esibling (demo_catalog ! 4)) 0 5"
    by (simp add: demo_defs)
  have "nearest_sibling (ncatalog demo_kit8) (ninstancelist demo_kit8) 4 (Suc 0) 5"
    by (rule ns_next[OF _ _ _ _ a]) (simp_all add: demo_defs demo_kit8_def centry_def)
  then show ?thesis by (simp add: demo_defs)
qed





section \<open>Looking up a private or non-leaf part\<close>

lemma demo_makePart_hidden: "makePart 3 demo_world demo_state 0 6 = Inr (demo_state4, True)"
  apply (simp add: demo_state4_def demo_hidden_def eval2_defs eval_nat_numeral)
  apply (rule ext)
  apply (simp add: eval2_defs)
  done




section \<open>List indices in part names\<close>

lemma list_getNumChildren_eq:
  "heap s l = Some ln \<Longrightarrow> ncontainer ln = Some c \<Longrightarrow> children_of s c = Some cs \<Longrightarrow>
     list_getNumChildren s l = Inr (length cs)"
  by (auto simp: list_getNumChildren_def list_container_def children_of_def num_children_def
           split: option.splits)

lemma list_getChild_eq:
  "heap s l = Some ln \<Longrightarrow> ncontainer ln = Some c \<Longrightarrow> children_of s c = Some cs \<Longrightarrow>
     0 \<le> i \<Longrightarrow> i < int (length cs) \<Longrightarrow> list_getChild s l i = Inr (cs ! nat i)"
  by (auto simp: list_getChild_def list_container_def children_of_def split: option.splits)

lemma createAndAddDefaultChild_appends:
  assumes "createAndAddDefaultChild m w s l = Inr (s', Some a)"
    and "heap s l = Some ln" "ncontainer ln = Some c" "children_of s c = Some cs"
    and "l < nextaddr s" "c < nextaddr s"
  shows "children_of s' c = Some (cs @ [a]) \<and> nextaddr s \<le> a"
proof -
  from assms(1,2) obtain t s1 where ci: "createInstance m w s t = Inr (s1, Some a)"
    and add: "list_addChild s1 l a = Inr s'"
    by (auto simp: createAndAddDefaultChild_def split: option.splits elim!: bnd_Inr_elim)
  note fr = createInstance_frame[OF ci]
  have hl: "heap s1 l = Some ln" using frame_below_heap[OF fr(1) assms(5)] assms(2) by simp
  have hc: "heap s1 c = heap s c" using frame_below_heap[OF fr(1) assms(6)] .
  from assms(4) obtain cn where cn: "heap s c = Some cn" "nchildren cn = Some cs"
    by (auto simp: children_of_def split: option.splits)
  from add hl hc cn assms(3) have "s' = set_children s1 c (cs @ [a])"
    by (simp add: list_addChild_def cl_append_def)
  with hc cn fr(3) show ?thesis by (simp add: children_of_set_children)
qed

lemma findPart_list_segment:
  assumes "heap s kit = Some k" "name \<noteq> ''this''"
    "first_segment name = Some (nm, True, i, pp)"
    "getPartNumber (ncatalog k) nm = p" "0 < p" "p < int (length (ninstancelist k))"
    "part_value s kit p = Some l"
  shows "findPart (Suc n) w s kit name mk rs =
           (case pp of None \<Rightarrow> Inr (s, Some (kit, p, True, i))
            | Some q \<Rightarrow>
                bnd (findPart_descend n w s kit p True i mk)
                  (\<lambda>(s2, next). case next of None \<Rightarrow> Inr (s2, None)
                     | Some kit' \<Rightarrow> findPart n w s2 kit' (drop (Suc q) name) mk rs))"
proof -
  from assms(1,5,6,7) have pv: "fvalue (ninstancelist k ! nat p) = Some l"
    by (simp add: part_value_def slot_def)
  show ?thesis
    using assms(1-6) pv by (simp add: Let_def)
qed

lemmas resolve_defs =
  getPart_def getAnyPart_def findPart_descend_def first_segment_def strtol_def to_int_def
  getSubString_def digit_val_def coin_isspace_def LONG_MAX_def LONG_MIN_def
  list_getNumChildren_def list_getChild_def list_addChild_def createAndAddDefaultChild_def
  canCreateDefaultChild_def leafkit_probe_def demo_inner_def demo_list_def
  demo_list_state_def

lemma demo_list_state_built:
  "bnd (createInstance 2 demo_world empty_state 11)
     (\<lambda>(s0, k). getPart 6 demo_world s0 0 ''b[0]'' True) = Inr (demo_list_state, Some 3)"
  apply (simp add: eval2_defs resolve_defs eval_nat_numeral)
  apply (rule ext)
  apply (simp add: eval2_defs resolve_defs eval_nat_numeral)
  done

text \<open>
  An intermediate list segment appends a default element for every index that passes the
  bounds test, also when the element at the index exists: the lookup of \<open>b[0].this\<close>
  (which ends in the private part \<open>this\<close> of the existing element and so returns
  \<^verbatim>\<open>NULL\<close>) leaves the list with two elements.
\<close>

lemma intermediate_segment_appends:
  "(case getPart 5 demo_world demo_list_state 0 ''b[0].this'' True of Inl x \<Rightarrow> False
    | Inr (s', r) \<Rightarrow> r = None \<and> children_of s' 2 = Some [3, 4])"
  by (simp add: eval2_defs resolve_defs eval_nat_numeral)



end
